theory Spec2Isabelle
  imports Main "HOL-Library.Sublist" "HOL-Library.AList"
begin

section \<open>Strings\<close>

text \<open>
  Python strings are modelled as \<^typ>\<open>string\<close>, one \<^typ>\<open>char\<close> per code point
  (code points 0 to 255).

  \<^verbatim>\<open>s.replace(old, new)\<close> replaces the occurrences of \<open>old\<close> from left to right,
  without overlap; with an empty \<open>old\<close> it inserts \<open>new\<close> before every character and
  at the end.
\<close>

function sub_scan :: "(string \<Rightarrow> (string \<times> nat) option) \<Rightarrow> string \<Rightarrow> string" where
  "sub_scan m [] = (case m [] of Some (out, n) \<Rightarrow> out | None \<Rightarrow> [])"
| "sub_scan m (c # cs) =
     (case m (c # cs) of
        Some (out, n) \<Rightarrow>
          if 0 < n then out @ sub_scan m (drop n (c # cs)) else out @ c # sub_scan m cs
      | None \<Rightarrow> c # sub_scan m cs)"
  by pat_completeness auto
termination
  by (relation "measure (\<lambda>(m, s). length s)") auto

text \<open>
  \<open>sub_scan m s\<close> is the left-to-right scan that \<^verbatim>\<open>str.replace\<close> and \<^verbatim>\<open>re.sub\<close>
  share: at each position the matcher \<open>m\<close> sees the rest of the string and answers
  with the replacement and the length of the match; the scan goes on behind the match
  (one character further after an empty match), and an unmatched character is copied.
\<close>

definition literal_match :: "string \<Rightarrow> string \<Rightarrow> string \<Rightarrow> (string \<times> nat) option" where
  "literal_match old new s = (if prefix old s then Some (new, length old) else None)"

definition str_replace :: "string \<Rightarrow> string \<Rightarrow> string \<Rightarrow> string" where
  "str_replace old new s = sub_scan (literal_match old new) s"

text \<open>\<^verbatim>\<open>needle in s\<close>.\<close>

fun str_contains :: "string \<Rightarrow> string \<Rightarrow> bool" where
  "str_contains needle [] = (needle = [])"
| "str_contains needle (c # cs) = (prefix needle (c # cs) \<or> str_contains needle cs)"

text \<open>
  The characters \<^verbatim>\<open>str.isspace\<close> accepts (and the regular expression \<^verbatim>\<open>\s\<close>
  matches) among the code points 0 to 255.
\<close>

definition is_space :: "char \<Rightarrow> bool" where
  "is_space c = (c \<in> set [CHR 0x09, CHR 0x0A, CHR 0x0B, CHR 0x0C, CHR 0x0D, CHR 0x1C,
     CHR 0x1D, CHR 0x1E, CHR 0x1F, CHR 0x20, CHR 0x85, CHR 0xA0])"

definition strip :: "string \<Rightarrow> string" where
  "strip s = rev (dropWhile is_space (rev (dropWhile is_space s)))"

definition lower_char :: "char \<Rightarrow> char" where
  "lower_char c =
     (let n = (of_char c :: nat)
      in if (65 \<le> n \<and> n \<le> 90) \<or> (192 \<le> n \<and> n \<le> 222 \<and> n \<noteq> 215)
         then char_of (n + 32) else c)"

definition lower :: "string \<Rightarrow> string" where
  "lower s = map lower_char s"

text \<open>\<^verbatim>\<open>str(n)\<close>, and the format \<^verbatim>\<open>{n:02d}\<close>.\<close>

fun str_nat :: "nat \<Rightarrow> string" where
  "str_nat n =
     (if n < 10 then [''0123456789'' ! n]
      else str_nat (n div 10) @ [''0123456789'' ! (n mod 10)])"

definition str_int :: "int \<Rightarrow> string" where
  "str_int i = (if i < 0 then CHR ''-'' # str_nat (nat (- i)) else str_nat (nat i))"

definition zero_pad :: "nat \<Rightarrow> string \<Rightarrow> string" where
  "zero_pad width s = replicate (width - length s) CHR ''0'' @ s"

definition format_02d :: "int \<Rightarrow> string" where
  "format_02d i =
     (if i < 0 then CHR ''-'' # zero_pad 1 (str_nat (nat (- i)))
      else zero_pad 2 (str_nat (nat i)))"

text \<open>
  What reading in text mode makes of the characters a file holds (universal
  newlines, the default of \<^verbatim>\<open>open\<close>): a carriage return followed by a line feed,
  and a carriage return alone, are read as one line feed.
\<close>

fun universal_newlines :: "string \<Rightarrow> string" where
  "universal_newlines [] = []"
| "universal_newlines [c] = [if c = CHR 0x0D then CHR 0x0A else c]"
| "universal_newlines (c # d # cs) =
     (if c = CHR 0x0D \<and> d = CHR 0x0A then CHR 0x0A # universal_newlines cs
      else (if c = CHR 0x0D then CHR 0x0A else c) # universal_newlines (d # cs))"

section \<open>The world the scripts run in\<close>

text \<open>
  Errors are values. \<open>HTTPError\<close> carries the status code that
  \<^verbatim>\<open>raise_for_status\<close> refused.
\<close>

datatype error =
    RuntimeError
  | KeyError
  | ConnectionError
  | HTTPError int
  | ValueError
  | AttributeError
  | TypeError
  | FileNotFoundError

type_synonym path = "string list"

record response =
  status_code :: int
  res_text :: string

text \<open>
  What one \<^verbatim>\<open>requests.get\<close> does: it raises or returns a response, and it takes
  \<open>duration\<close> microseconds.
\<close>

record reply =
  outcome :: "error + response"
  duration :: nat

text \<open>
  The world: the text files on disk (an association list from path to contents; a
  path is its list of components), the directory \<^verbatim>\<open>get_repo_dir\<close> finds (\<open>None\<close>
  when no parent of the script holds \<^verbatim>\<open>Cargo.toml\<close>), the environment variable
  \<^verbatim>\<open>AOC_SESSION_ID\<close>, the clock in microseconds, the remote server (what it
  answers to a URL and a session cookie at a time), the log of the requests
  sent, oldest first, and the lines printed. Directories are not modelled:
  \<^verbatim>\<open>mkdir\<close> changes nothing. A file holds the characters written to it; the
  encoding represents every character.
\<close>

record world =
  files :: "(path \<times> string) list"
  repo_dir :: "path option"
  aoc_session_id :: "string option"
  clock :: int
  server :: "string \<Rightarrow> string \<Rightarrow> int \<Rightarrow> reply"
  net_log :: "(string \<times> string) list"
  stdout :: "string list"

definition get_repo_dir :: "world \<Rightarrow> error + path" where
  "get_repo_dir w = (case repo_dir w of None \<Rightarrow> Inl RuntimeError | Some p \<Rightarrow> Inr p)"

definition path_exists :: "world \<Rightarrow> path \<Rightarrow> bool" where
  "path_exists w p = (map_of (files w) p \<noteq> None)"

text \<open>
  The scripts open their files in text mode. \<^verbatim>\<open>open(p, "w").write(s)\<close> stores
  the characters of \<open>s\<close> as they are (the line separator of the system is the line
  feed); \<^verbatim>\<open>open(p).read()\<close> returns the characters of the file with the line ends
  translated, and raises when there is no file.
\<close>

definition write_file :: "path \<Rightarrow> string \<Rightarrow> world \<Rightarrow> world" where
  "write_file p s w = w\<lparr>files := AList.update p s (files w)\<rparr>"

definition read_text :: "world \<Rightarrow> path \<Rightarrow> error + string" where
  "read_text w p =
     (case map_of (files w) p of
        None \<Rightarrow> Inl FileNotFoundError
      | Some contents \<Rightarrow> Inr (universal_newlines contents))"

definition sleep :: "int \<Rightarrow> world \<Rightarrow> world" where
  "sleep us w = w\<lparr>clock := clock w + us\<rparr>"

definition requests_get :: "string \<Rightarrow> string \<Rightarrow> world \<Rightarrow> (error + response) \<times> world" where
  "requests_get url session w =
     (let r = server w url session (clock w)
      in (outcome r,
          w\<lparr>clock := clock w + int (duration r), net_log := net_log w @ [(url, session)]\<rparr>))"

text \<open>\<^verbatim>\<open>Response.raise_for_status\<close> raises for the statuses 400 to 599.\<close>

definition raise_for_status :: "response \<Rightarrow> error + unit" where
  "raise_for_status res =
     (if 400 \<le> status_code res \<and> status_code res < 600
      then Inl (HTTPError (status_code res)) else Inr ())"

section \<open>AOCDownloader\<close>

text \<open>Times and periods are microseconds.\<close>

record downloader =
  year :: int
  session_id :: string
  throttle_period :: int
  wait_until :: int


definition wait_for_throttle :: "downloader \<Rightarrow> world \<Rightarrow> world" where
  "wait_for_throttle d w =
     (let now = clock w in if now < wait_until d then sleep (wait_until d - now) w else w)"

definition reset_throttle :: "downloader \<Rightarrow> world \<Rightarrow> downloader" where
  "reset_throttle d w = d\<lparr>wait_until := clock w + throttle_period d\<rparr>"

definition cache_path :: "path \<Rightarrow> string \<Rightarrow> string \<Rightarrow> path" where
  "cache_path root session url = root @ [''.cache'', session, str_replace ''/'' ''_'' url]"

definition download_file ::
  "downloader \<Rightarrow> string \<Rightarrow> world \<Rightarrow> (error + string) \<times> downloader \<times> world" where
  "download_file d url w =
     (case get_repo_dir w of
        Inl e \<Rightarrow> (Inl e, d, w)
      | Inr root \<Rightarrow>
          let cache_file = cache_path root (session_id d) url in
          if path_exists w cache_file then
            (case read_text w cache_file of
               Inl e \<Rightarrow> (Inl e, d, w)
             | Inr contents \<Rightarrow> (Inr contents, d, w))
          else
            let w1 = wait_for_throttle d w;
                (got, w2) = requests_get url (session_id d) w1
            in (case got of
                  Inl e \<Rightarrow> (Inl e, d, w2)
                | Inr res \<Rightarrow>
                    let d2 = reset_throttle d w2 in
                    (case raise_for_status res of
                       Inl e \<Rightarrow> (Inl e, d2, w2)
                     | Inr _ \<Rightarrow>
                         (Inr (res_text res), d2,
                          write_file cache_file (res_text res) w2))))"

subsection \<open>The release gate\<close>

text \<open>
  The proleptic Gregorian calendar of Python's \<^verbatim>\<open>datetime\<close>: the ordinal of a date
  counts days from 0001-01-01, which is day 1. An aware datetime is modelled as the
  instant it denotes, in microseconds since 1970-01-01T00:00 UTC (ordinal 719163),
  which is what the comparison of two aware datetimes compares; \<open>clock\<close> is the
  current instant on that scale. The constructor raises \<open>ValueError\<close> outside
  year 1 to 9999 and for a day the month does not have.
\<close>

definition is_leap :: "int \<Rightarrow> bool" where
  "is_leap y = (y mod 4 = 0 \<and> (y mod 100 \<noteq> 0 \<or> y mod 400 = 0))"

definition days_before_year :: "int \<Rightarrow> int" where
  "days_before_year y = (y - 1) * 365 + (y - 1) div 4 - (y - 1) div 100 + (y - 1) div 400"

definition days_in_month :: "int \<Rightarrow> int \<Rightarrow> int" where
  "days_in_month y m =
     (if m = 2 \<and> is_leap y then 29
      else [31, 28, 31, 30, 31, 30, 31, 31, 30, 31, 30, 31] ! nat (m - 1))"

definition days_before_month :: "int \<Rightarrow> int \<Rightarrow> int" where
  "days_before_month y m =
     [0, 31, 59, 90, 120, 151, 181, 212, 243, 273, 304, 334] ! nat (m - 1)
     + (if 2 < m \<and> is_leap y then 1 else 0)"

definition ymd2ord :: "int \<Rightarrow> int \<Rightarrow> int \<Rightarrow> int" where
  "ymd2ord y m d = days_before_year y + days_before_month y m + d"

definition us_per_day :: int where
  "us_per_day = 86400000000"

definition timedelta_hours :: "int \<Rightarrow> int" where
  "timedelta_hours h = h * 3600000000"

definition datetime_tz :: "int \<Rightarrow> int \<Rightarrow> int \<Rightarrow> int \<Rightarrow> error + int" where
  "datetime_tz y m d utcoffset =
     (if 1 \<le> y \<and> y \<le> 9999 \<and> 1 \<le> m \<and> m \<le> 12 \<and> 1 \<le> d \<and> d \<le> days_in_month y m
      then Inr ((ymd2ord y m d - 719163) * us_per_day - utcoffset)
      else Inl ValueError)"

definition problem_released :: "downloader \<Rightarrow> int \<Rightarrow> world \<Rightarrow> error + bool" where
  "problem_released d day w =
     (let est = timedelta_hours (- 5) in
      case datetime_tz (year d) 12 day est of
        Inl e \<Rightarrow> Inl e
      | Inr problem_release \<Rightarrow> let now = clock w in Inr (now > problem_release))"


definition page_url :: "int \<Rightarrow> int \<Rightarrow> string" where
  "page_url y day = ''https://adventofcode.com/'' @ str_int y @ ''/day/'' @ str_int day"


subsection \<open>Example blocks of a puzzle page\<close>

text \<open>
  The tree Beautiful Soup builds: a tag with its children, or a string of one of the
  string classes, \<open>NavigableString\<close> and its subclasses. The tree builder gives the
  strings inside the tags \<^verbatim>\<open>rt\<close>, \<^verbatim>\<open>rp\<close>, \<^verbatim>\<open>style\<close>, \<^verbatim>\<open>script\<close> and
  \<^verbatim>\<open>template\<close> a class of their own.
\<close>

datatype string_class =
    NavigableString
  | CData
  | Comment
  | Declaration
  | Doctype
  | ProcessingInstruction
  | RubyTextString
  | RubyParenthesisString
  | Stylesheet
  | Script
  | TemplateString

datatype node =
    Tag string "node list"
  | Str string_class string

text \<open>
  \<^verbatim>\<open>get_text\<close> joins the strings at and below a node whose class is one of the
  classes the node takes for text: those of \<^verbatim>\<open>interesting_string_types\<close> for a
  tag (the class of its own strings for one of the five tags above, else the
  default), and the default for a string. So a comment has no text, and the text of a
  \<^verbatim>\<open>script\<close> tag is its script, which is not part of the text of the tags around it.
  Every node has the method, \<^verbatim>\<open>None\<close> has not.
\<close>

definition default_interesting_string_types :: "string_class list" where
  "default_interesting_string_types = [NavigableString, CData]"

definition string_containers :: "string \<Rightarrow> string_class option" where
  "string_containers name =
     map_of [(''rt'', RubyTextString), (''rp'', RubyParenthesisString), (''style'', Stylesheet),
             (''script'', Script), (''template'', TemplateString)] name"

definition interesting_string_types :: "string \<Rightarrow> string_class list" where
  "interesting_string_types name =
     (case string_containers name of
        Some c \<Rightarrow> [c]
      | None \<Rightarrow> default_interesting_string_types)"

fun all_strings :: "string_class list \<Rightarrow> node \<Rightarrow> string list" where
  "all_strings types (Tag name children) = concat (map (all_strings types) children)"
| "all_strings types (Str c s) = (if c \<in> set types then [s] else [])"

fun get_text :: "node \<Rightarrow> string" where
  "get_text (Tag name children) =
     concat (all_strings (interesting_string_types name) (Tag name children))"
| "get_text (Str c s) = concat (all_strings default_interesting_string_types (Str c s))"

text \<open>
  \<^verbatim>\<open>find_all("pre")\<close>: the \<^verbatim>\<open>pre\<close> tags below a node, in document order. Each comes
  with the chain its \<^verbatim>\<open>previous_sibling\<close> links walk: the siblings before it,
  nearest first. After the last of them \<^verbatim>\<open>previous_sibling\<close> is \<^verbatim>\<open>None\<close>.
\<close>

function find_all_pre_in :: "node list \<Rightarrow> node list \<Rightarrow> (node list \<times> node) list" where
  "find_all_pre_in preceding [] = []"
| "find_all_pre_in preceding (Tag name children # rest) =
     (if name = ''pre'' then [(preceding, Tag name children)] else [])
     @ find_all_pre_in [] children
     @ find_all_pre_in (Tag name children # preceding) rest"
| "find_all_pre_in preceding (Str c s # rest) = find_all_pre_in (Str c s # preceding) rest"
  by pat_completeness auto
termination
  by (relation "measure (\<lambda>(preceding, ns). size_list size ns)") auto

fun find_all_pre :: "node \<Rightarrow> (node list \<times> node) list" where
  "find_all_pre (Tag name children) = find_all_pre_in [] children"
| "find_all_pre (Str c s) = []"

text \<open>
  The \<^verbatim>\<open>while True\<close> loop of \<^verbatim>\<open>download_examples\<close>, started at the block's
  \<^verbatim>\<open>previous_sibling\<close>. At the end of the chain \<^verbatim>\<open>previous_paragraph\<close> is
  \<^verbatim>\<open>None\<close>: the test fails, and reading \<^verbatim>\<open>None.previous_sibling\<close> raises
  \<open>AttributeError\<close>.
\<close>

fun find_caption :: "node list \<Rightarrow> error + node" where
  "find_caption [] = Inl AttributeError"
| "find_caption (previous_paragraph # preceding) =
     (if strip (get_text previous_paragraph) \<noteq> [] then Inr previous_paragraph
      else find_caption preceding)"

fun collect_examples :: "(node list \<times> node) list \<Rightarrow> string list \<Rightarrow> error + string list" where
  "collect_examples [] examples = Inr examples"
| "collect_examples ((preceding, code_block) # rest) examples =
     (case find_caption preceding of
        Inl e \<Rightarrow> Inl e
      | Inr previous_paragraph \<Rightarrow>
          collect_examples rest
            (if str_contains ''example'' (lower (get_text previous_paragraph))
             then examples @ [get_text code_block] else examples))"

text \<open>
  \<open>parse\<close> stands for \<^verbatim>\<open>BeautifulSoup(html, features="lxml")\<close>: the document
  node of the page.
\<close>

definition download_examples ::
  "(string \<Rightarrow> node) \<Rightarrow> downloader \<Rightarrow> int \<Rightarrow> world
     \<Rightarrow> (error + string list option) \<times> downloader \<times> world" where
  "download_examples parse d day w =
     (case problem_released d day w of
        Inl e \<Rightarrow> (Inl e, d, w)
      | Inr released \<Rightarrow>
          if \<not> released then (Inr None, d, w)
          else (case download_file d (page_url (year d) day) w of
                  (Inl e, d1, w1) \<Rightarrow> (Inl e, d1, w1)
                | (Inr html, d1, w1) \<Rightarrow>
                    (case collect_examples (find_all_pre (parse html)) [] of
                       Inl e \<Rightarrow> (Inl e, d1, w1)
                     | Inr examples \<Rightarrow> (Inr (Some examples), d1, w1))))"

section \<open>The input sync driver\<close>










section \<open>The template expander\<close>

text \<open>
  The two regular expressions have the shape
  \<^verbatim>\<open>(?P<before>HEADER\s*)LITERAL(?P<after>\s*\})\<close>. Neither literal nor the closing
  brace is white space, so each \<^verbatim>\<open>\s*\<close> takes all the white space there is and
  backtracking finds nothing else. A match answers with the two groups and its
  length.
\<close>

definition match_fn :: "string \<Rightarrow> string \<Rightarrow> string \<Rightarrow> (string \<times> string \<times> nat) option" where
  "match_fn header literal s =
     (if prefix header s then
        let s1 = drop (length header) s;
            ws1 = takeWhile is_space s1;
            s2 = dropWhile is_space s1
        in if prefix literal s2 then
             let s3 = drop (length literal) s2;
                 ws2 = takeWhile is_space s3;
                 s4 = dropWhile is_space s3
             in (case s4 of
                   [] \<Rightarrow> None
                 | c # rest \<Rightarrow>
                     if c = CHR ''}''
                     then Some (header @ ws1, ws2 @ ''}'',
                                length header + length ws1 + length literal + length ws2 + 1)
                     else None)
           else None
      else None)"

text \<open>\<^verbatim>\<open>re.sub\<close> with the replacement \<^verbatim>\<open>\g<before>REPL\g<after>\<close>.\<close>

definition fn_matcher :: "string \<Rightarrow> string \<Rightarrow> string \<Rightarrow> string \<Rightarrow> (string \<times> nat) option" where
  "fn_matcher header literal repl s =
     (case match_fn header literal s of
        None \<Rightarrow> None
      | Some (g_before, g_after, n) \<Rightarrow> Some (g_before @ repl @ g_after, n))"

definition re_sub_fn :: "string \<Rightarrow> string \<Rightarrow> string \<Rightarrow> string \<Rightarrow> string" where
  "re_sub_fn header literal repl s = sub_scan (fn_matcher header literal repl) s"

definition day_header :: string where
  "day_header = ''fn day(&self) -> i32 {''"

definition implemented_header :: string where
  "implemented_header = ''fn implemented(&self) -> bool {''"

definition expand_template :: "int \<Rightarrow> string \<Rightarrow> string" where
  "expand_template day template =
     (let t1 = str_replace ''  1'' (''  '' @ str_int day)
                 (str_replace ''Day01'' (''Day'' @ format_02d day) template);
          t2 = re_sub_fn day_header ''1'' (str_int day) t1;
          t3 = re_sub_fn implemented_header ''true'' ''false'' t2
      in t3)"

text \<open>\<^verbatim>\<open>re.search\<close>: the pattern matches at some position of the text.\<close>

definition re_search_fn :: "string \<Rightarrow> string \<Rightarrow> string \<Rightarrow> bool" where
  "re_search_fn header literal s =
     list_ex (\<lambda>i. match_fn header literal (drop i s) \<noteq> None) [0..<Suc (length s)]"

text \<open>
  For the proofs about the two patterns: the part of a match behind the header, so
  that \<open>match_fn\<close> is the header followed by \<open>match_tail\<close>; and the text of a
  function whose body is one value, which is the header, white space, the value,
  white space and the closing brace.
\<close>

definition match_tail :: "string \<Rightarrow> string \<Rightarrow> (string \<times> string \<times> nat) option" where
  "match_tail literal s1 =
     (let ws1 = takeWhile is_space s1;
          s2 = dropWhile is_space s1
      in if prefix literal s2 then
           let s3 = drop (length literal) s2;
               ws2 = takeWhile is_space s3;
               s4 = dropWhile is_space s3
           in (case s4 of
                 [] \<Rightarrow> None
               | c # rest \<Rightarrow>
                   if c = CHR ''}''
                   then Some (ws1, ws2 @ ''}'', length ws1 + length literal + length ws2 + 1)
                   else None)
         else None)"

definition fn_block :: "string \<Rightarrow> string \<Rightarrow> string \<Rightarrow> string \<Rightarrow> string" where
  "fn_block header ws1 body ws2 = header @ ws1 @ body @ ws2 @ ''}''"

text \<open>
  A matcher is safe at the boundaries of the two functions when it matches nothing
  empty and nothing beyond its input, when text that starts with \<open>fn\<close> behind a
  segment never changes what it finds in the segment, and when nothing behind a
  closing brace does.
\<close>

definition boundary_safe :: "(string \<Rightarrow> (string \<times> nat) option) \<Rightarrow> bool" where
  "boundary_safe m \<longleftrightarrow>
     m [] = None
     \<and> (\<forall>y out n. m y = Some (out, n) \<longrightarrow> 0 < n \<and> n \<le> length y)
     \<and> (\<forall>y b. y \<noteq> [] \<longrightarrow> m (y @ ''fn'' @ b) = m y)
     \<and> (\<forall>y b. y \<noteq> [] \<and> last y = CHR ''}'' \<longrightarrow> m (y @ b) = m y)"

definition use_day01_as_template_main :: "world \<Rightarrow> (error + unit) \<times> world" where
  "use_day01_as_template_main w =
     (case get_repo_dir w of
        Inl e \<Rightarrow> (Inl e, w)
      | Inr repo \<Rightarrow>
          let solutions_dir = repo @ [''src'', ''solutions''] in
          (case read_text w (solutions_dir @ [''day01.rs'']) of
             Inl e \<Rightarrow> (Inl e, w)
           | Inr template \<Rightarrow>
               (Inr (),
                fold (\<lambda>day. write_file (solutions_dir @ [''day'' @ format_02d day @ ''.rs''])
                               (expand_template day template))
                  [2..25] w)))"

section \<open>Test harness and example worlds\<close>

text \<open>
  Two successive fetches of one URL with one downloader: both results, and the number
  of requests the two calls sent.
\<close>

definition fetch_twice ::
  "downloader \<Rightarrow> string \<Rightarrow> world \<Rightarrow> (error + string) \<times> (error + string) \<times> nat" where
  "fetch_twice d url w =
     (case download_file d url w of
        (r1, d1, w1) \<Rightarrow>
          (case download_file d1 url w1 of
             (r2, d2, w2) \<Rightarrow> (r1, r2, length (net_log w2) - length (net_log w))))"

definition ok_server :: "string \<Rightarrow> string \<Rightarrow> int \<Rightarrow> reply" where
  "ok_server url session t =
     \<lparr>outcome = Inr \<lparr>status_code = 200, res_text = ''body of '' @ url\<rparr>, duration = 7\<rparr>"

definition failing_server :: "string \<Rightarrow> string \<Rightarrow> int \<Rightarrow> reply" where
  "failing_server url session t =
     \<lparr>outcome = Inr \<lparr>status_code = 404, res_text = ''not found''\<rparr>, duration = 7\<rparr>"

text \<open>
  A server whose answer has Windows line ends, and one that cannot be reached:
  \<^verbatim>\<open>requests.get\<close> raises.
\<close>

definition crlf_server :: "string \<Rightarrow> string \<Rightarrow> int \<Rightarrow> reply" where
  "crlf_server url session t =
     \<lparr>outcome = Inr \<lparr>status_code = 200, res_text = [CHR ''a'', CHR 0x0D, CHR 0x0A, CHR ''b'']\<rparr>,
      duration = 7\<rparr>"

definition unreachable_server :: "string \<Rightarrow> string \<Rightarrow> int \<Rightarrow> reply" where
  "unreachable_server url session t = \<lparr>outcome = Inl ConnectionError, duration = 7\<rparr>"

definition cold_world :: world where
  "cold_world =
     \<lparr>files = [], repo_dir = Some [''repo''], aoc_session_id = Some ''tok'', clock = 100,
      server = ok_server, net_log = [], stdout = []\<rparr>"

definition warm_world :: world where
  "warm_world = cold_world\<lparr>files := [([''repo'', ''.cache'', ''tok'', ''a_b''], ''cached'')]\<rparr>"

definition failing_world :: world where
  "failing_world = cold_world\<lparr>server := failing_server\<rparr>"

definition crlf_world :: world where
  "crlf_world = cold_world\<lparr>server := crlf_server\<rparr>"

definition unreachable_world :: world where
  "unreachable_world = cold_world\<lparr>server := unreachable_server\<rparr>"

definition demo_downloader :: downloader where
  "demo_downloader =
     \<lparr>year = 2020, session_id = ''tok'', throttle_period = 5000000, wait_until = 130\<rparr>"

text \<open>
  The downloader after one request that ended at time 137, the world after
  \<open>cold_world\<close> has fetched \<open>a/b\<close>, and the world after \<open>failing_world\<close> has tried.
\<close>

definition used_downloader :: downloader where
  "used_downloader = demo_downloader\<lparr>wait_until := 5000137\<rparr>"

definition fetched_world :: world where
  "fetched_world =
     cold_world\<lparr>files := [([''repo'', ''.cache'', ''tok'', ''a_b''], ''body of a/b'')],
       clock := 137, net_log := [(''a/b'', ''tok'')]\<rparr>"

text \<open>
  The release instant the specification names: December \<open>day\<close>, 00:00 in UTC-5 of
  year \<open>y\<close>, which is 05:00 UTC of that day, in microseconds since 1970-01-01T00:00
  UTC.
\<close>

definition utc_midnight :: "int \<Rightarrow> int \<Rightarrow> int \<Rightarrow> int" where
  "utc_midnight y m d = (ymd2ord y m d - ymd2ord 1970 1 1) * us_per_day"

definition release_instant :: "int \<Rightarrow> int \<Rightarrow> int" where
  "release_instant y day = utc_midnight y 12 day + 5 * 3600 * 1000000"

definition days_in_year :: "int \<Rightarrow> int" where
  "days_in_year y = (if is_leap y then 366 else 365)"

text \<open>
  The caption of a block as the specification words it: the nearest preceding
  sibling that has text other than white space. A block is an example when its
  caption contains \<open>example\<close> in any case; the examples of a page are the texts of
  these blocks, in document order.
\<close>

definition caption :: "node list \<Rightarrow> node option" where
  "caption preceding = find (\<lambda>p. strip (get_text p) \<noteq> []) preceding"

definition is_example_block :: "node list \<times> node \<Rightarrow> bool" where
  "is_example_block b =
     (case caption (fst b) of
        None \<Rightarrow> False
      | Some c \<Rightarrow> str_contains ''example'' (lower (get_text c)))"

definition example_blocks :: "node \<Rightarrow> string list" where
  "example_blocks soup = map (\<lambda>b. get_text (snd b)) (filter is_example_block (find_all_pre soup))"

definition all_captioned :: "node \<Rightarrow> bool" where
  "all_captioned soup = list_all (\<lambda>b. caption (fst b) \<noteq> None) (find_all_pre soup)"

definition demo_soup :: node where
  "demo_soup =
     Tag ''[document]'' [Tag ''html'' [Tag ''body''
       [Tag ''p'' [Str NavigableString ''For Example, suppose:''],
        Str NavigableString ''\<newline>'',
        Tag ''pre'' [Tag ''code'' [Str NavigableString ''1 2'']],
        Tag ''p'' [Str NavigableString ''The output is:''],
        Str Comment ''an example'',
        Tag ''pre'' [Tag ''code'' [Str NavigableString ''3'']],
        Tag ''p'' [Str NavigableString ''another EXAMPLE''],
        Tag ''div'' [Tag ''script'' [Str Script ''example()'']],
        Tag ''pre'' [Str NavigableString ''4'']]]]"

definition malformed_soup :: node where
  "malformed_soup =
     Tag ''[document]'' [Tag ''body''
       [Str NavigableString ''  '', Tag ''pre'' [Str NavigableString ''5'']]]"

text \<open>
  A parser that answers with one of the two documents, and a world after the release
  of day 1 and day 2 of 2020 that has both puzzle pages in its cache.
\<close>

definition demo_parse :: "string \<Rightarrow> node" where
  "demo_parse html = (if html = ''<bad>'' then malformed_soup else demo_soup)"

definition released_world :: world where
  "released_world =
     cold_world\<lparr>files :=
         [([''repo'', ''.cache'', ''tok'', ''https:__adventofcode.com_2020_day_1''], ''<html>''),
          ([''repo'', ''.cache'', ''tok'', ''https:__adventofcode.com_2020_day_2''], ''<bad>'')],
       clock := 1606900000000000\<rparr>"

text \<open>A template without the two functions, and a world that holds it.\<close>

definition shapeless_template :: string where
  "shapeless_template = ''// Day01: fn day() -> i32 { 1 }''"

definition template_world :: world where
  "template_world =
     cold_world\<lparr>files := [([''repo'', ''src'', ''solutions'', ''day01.rs''], shapeless_template)]\<rparr>"

text \<open>
  The expansion as the specification words it, with three substitutions and no
  other: the label \<open>Day01\<close>, the value of the day function and the value of the
  \<open>implemented\<close> function.
\<close>

definition three_substitutions :: "int \<Rightarrow> string \<Rightarrow> string" where
  "three_substitutions day template =
     re_sub_fn implemented_header ''true'' ''false''
       (re_sub_fn day_header ''1'' (str_int day)
          (str_replace ''Day01'' (''Day'' @ format_02d day) template))"

text \<open>
  A template of the expected shape, and one with a number indented by four spaces in
  another function.
\<close>

definition day01_template :: string where
  "day01_template =
     ''pub struct Day01;\<newline>\<newline>impl Puzzle for Day01 {\<newline>    fn day(&self) -> i32 {\<newline>        1\<newline>    }\<newline>    fn implemented(&self) -> bool {\<newline>        true\<newline>    }\<newline>}\<newline>''"

definition indented_template :: string where
  "indented_template =
     ''fn day(&self) -> i32 { 1 }\<newline>fn implemented(&self) -> bool { true }\<newline>fn part_1(&self) -> i32 {\<newline>    100\<newline>}\<newline>''"


definition failed_world :: world where
  "failed_world = failing_world\<lparr>clock := 137, net_log := [(''a/b'', ''tok'')]\<rparr>"

definition unreached_world :: world where
  "unreached_world = unreachable_world\<lparr>clock := 137, net_log := [(''a/b'', ''tok'')]\<rparr>"

section \<open>The fetcher: cache, throttle, errors\<close>

lemma universal_newlines_no_cr: "CHR 0x0D \<notin> set (universal_newlines s)"
  by (induction s rule: universal_newlines.induct) simp_all

lemma universal_newlines_id: "CHR 0x0D \<notin> set s \<Longrightarrow> universal_newlines s = s"
  by (induction s rule: universal_newlines.induct) auto

lemma universal_newlines_idem: "universal_newlines (universal_newlines s) = universal_newlines s"
  by (rule universal_newlines_id) (rule universal_newlines_no_cr)

lemmas download_file_unfold =
  download_file_def Let_def get_repo_dir_def requests_get_def reset_throttle_def
  write_file_def wait_for_throttle_def sleep_def raise_for_status_def path_exists_def
  read_text_def

lemma download_file_hit:
  assumes "get_repo_dir w = Inr root"
    and "map_of (files w) (cache_path root (session_id d) url) = Some contents"
  shows "download_file d url w = (Inr (universal_newlines contents), d, w)"
  using assms by (simp add: download_file_def path_exists_def read_text_def)

lemma download_file_miss:
  assumes "get_repo_dir w = Inr root"
    and "map_of (files w) (cache_path root (session_id d) url) = None"
    and "requests_get url (session_id d) (wait_for_throttle d w) = (Inr res, w2)"
  shows "download_file d url w =
     (case raise_for_status res of
        Inl e \<Rightarrow> (Inl e, reset_throttle d w2, w2)
      | Inr _ \<Rightarrow> (Inr (res_text res), reset_throttle d w2,
                  write_file (cache_path root (session_id d) url) (res_text res) w2))"
  using assms by (simp add: download_file_def Let_def path_exists_def)

lemma download_file_raise:
  assumes "get_repo_dir w = Inr root"
    and "map_of (files w) (cache_path root (session_id d) url) = None"
    and "requests_get url (session_id d) (wait_for_throttle d w) = (Inl e, w2)"
  shows "download_file d url w = (Inl e, d, w2)"
  using assms by (simp add: download_file_def Let_def path_exists_def)

lemma requests_get_clock:
  "requests_get url session w = (got, w2) \<Longrightarrow>
     clock w2 = clock w + int (duration (server w url session (clock w)))
     \<and> files w2 = files w \<and> repo_dir w2 = repo_dir w
     \<and> net_log w2 = net_log w @ [(url, session)]"
  by (auto simp: requests_get_def Let_def)

lemma wait_for_throttle_clock:
  "clock (wait_for_throttle d w) = max (clock w) (wait_until d)
   \<and> files (wait_for_throttle d w) = files w
   \<and> repo_dir (wait_for_throttle d w) = repo_dir w
   \<and> net_log (wait_for_throttle d w) = net_log w
   \<and> server (wait_for_throttle d w) = server w"
  by (simp add: wait_for_throttle_def sleep_def Let_def)

text \<open>
  After a fetch that returned a body the cache file exists, and read in text mode it
  gives the body with its line ends translated.
\<close>

lemma download_file_success:
  assumes root: "get_repo_dir w = Inr root" and first: "download_file d url w = (Inr body, d1, w1)"
  shows "session_id d1 = session_id d \<and> get_repo_dir w1 = Inr root
    \<and> (\<exists>stored. map_of (files w1) (cache_path root (session_id d) url) = Some stored
          \<and> universal_newlines stored = universal_newlines body)"
proof (cases "map_of (files w) (cache_path root (session_id d) url)")
  case (Some contents)
  from download_file_hit [OF root Some] first
  have "body = universal_newlines contents" and "d1 = d" and "w1 = w"
    by simp_all
  with root Some show ?thesis
    by (simp add: universal_newlines_idem)
next
  case None
  obtain got w2 where req: "requests_get url (session_id d) (wait_for_throttle d w) = (got, w2)"
    by (cases "requests_get url (session_id d) (wait_for_throttle d w)") auto
  from requests_get_clock [OF req] have repo: "repo_dir w2 = repo_dir w"
    by (simp add: wait_for_throttle_clock)
  show ?thesis
  proof (cases got)
    case (Inl e)
    with download_file_raise [OF root None] req first show ?thesis
      by simp
  next
    case (Inr res)
    with req have req': "requests_get url (session_id d) (wait_for_throttle d w) = (Inr res, w2)"
      by simp
    note eq = download_file_miss [OF root None req']
    show ?thesis
    proof (cases "raise_for_status res")
      case (Inl e)
      with eq first show ?thesis by simp
    next
      case ok: (Inr u)
      with eq first have "body = res_text res" and "d1 = reset_throttle d w2"
        and "w1 = write_file (cache_path root (session_id d) url) body w2"
        by simp_all
      with repo root show ?thesis
        by (simp add: reset_throttle_def write_file_def get_repo_dir_def update_conv')
    qed
  qed
qed

lemma download_file_log:
  assumes "download_file d url w = (r, d1, w1)"
  shows "net_log w1 = net_log w \<or> net_log w1 = net_log w @ [(url, session_id d)]"
  using assms
  by (auto simp: download_file_unfold
      split: option.splits sum.splits if_splits prod.splits)

lemma download_file_miss_log:
  assumes "get_repo_dir w = Inr root"
    and "map_of (files w) (cache_path root (session_id d) url) = None"
    and "download_file d url w = (r, d1, w1)"
  shows "net_log w1 = net_log w @ [(url, session_id d)]"
  using assms
  by (auto simp: download_file_unfold
      split: option.splits sum.splits if_splits prod.splits)

text \<open>
  Claim C1 (as amended). When the cache file
  \<open>root/.cache/<session>/<url with / replaced by _>\<close> exists, \<open>download_file\<close>
  returns its contents as reading in text mode gives them (carriage return and line
  feed, or a carriage return alone, read as a line feed) and leaves the downloader (so
  the throttle deadline) and the world (so the request log, the clock and the files)
  as they were. Hence, once a first fetch of a URL has returned a body, a second
  fetch of the same URL with the same downloader returns that body with its line
  ends translated (the very same body when it holds no carriage return) and sends
  no request; the two calls together send at most one request, and exactly one when
  the cache file did not exist before the first call.
\<close>

theorem download_file_cache_hit:
  assumes "get_repo_dir w = Inr root"
  shows "(map_of (files w) (cache_path root (session_id d) url) = Some contents \<longrightarrow>
            download_file d url w = (Inr (universal_newlines contents), d, w))
       \<and> (download_file d url w = (Inr body, d1, w1) \<longrightarrow>
            download_file d1 url w1 = (Inr (universal_newlines body), d1, w1)
            \<and> (CHR 0x0D \<notin> set body \<longrightarrow> download_file d1 url w1 = (Inr body, d1, w1))
            \<and> fetch_twice d url w =
                (Inr body, Inr (universal_newlines body), length (net_log w1) - length (net_log w))
            \<and> (net_log w1 = net_log w \<or> net_log w1 = net_log w @ [(url, session_id d)])
            \<and> (map_of (files w) (cache_path root (session_id d) url) = None \<longrightarrow>
                 net_log w1 = net_log w @ [(url, session_id d)]))"
proof (intro conjI impI)
  assume "map_of (files w) (cache_path root (session_id d) url) = Some contents"
  with assms show "download_file d url w = (Inr (universal_newlines contents), d, w)"
    by (rule download_file_hit)
next
  assume first: "download_file d url w = (Inr body, d1, w1)"
  from download_file_success [OF assms first] obtain stored
    where sid: "session_id d1 = session_id d" and root: "get_repo_dir w1 = Inr root"
      and cached: "map_of (files w1) (cache_path root (session_id d) url) = Some stored"
      and same: "universal_newlines stored = universal_newlines body"
    by blast
  from cached sid have "map_of (files w1) (cache_path root (session_id d1) url) = Some stored"
    by simp
  with root have "download_file d1 url w1 = (Inr (universal_newlines stored), d1, w1)"
    by (rule download_file_hit)
  with same show second: "download_file d1 url w1 = (Inr (universal_newlines body), d1, w1)"
    by simp
  from first second
  show "fetch_twice d url w =
      (Inr body, Inr (universal_newlines body), length (net_log w1) - length (net_log w))"
    by (simp add: fetch_twice_def)
  from first show "net_log w1 = net_log w \<or> net_log w1 = net_log w @ [(url, session_id d)]"
    by (rule download_file_log)
  assume "CHR 0x0D \<notin> set body"
  then have "universal_newlines body = body"
    by (rule universal_newlines_id)
  with second show "download_file d1 url w1 = (Inr body, d1, w1)"
    by simp
next
  assume "download_file d url w = (Inr body, d1, w1)"
    and "map_of (files w) (cache_path root (session_id d) url) = None"
  with assms show "net_log w1 = net_log w @ [(url, session_id d)]"
    using download_file_miss_log by blast
qed

lemma cold_fetch:
  "download_file demo_downloader ''a/b'' cold_world =
     (Inr ''body of a/b'', used_downloader, fetched_world)"
  by (simp add: download_file_unfold cold_world_def demo_downloader_def ok_server_def
      cache_path_def str_replace_def literal_match_def fetched_world_def used_downloader_def)

theorem download_file_cache_hit_witness:
  "download_file used_downloader ''a/b'' fetched_world =
     (Inr ''body of a/b'', used_downloader, fetched_world)
   \<and> fetch_twice demo_downloader ''a/b'' cold_world = (Inr ''body of a/b'', Inr ''body of a/b'', 1)
   \<and> download_file demo_downloader ''a/b'' warm_world = (Inr ''cached'', demo_downloader, warm_world)"
proof -
  have root: "get_repo_dir cold_world = Inr [''repo'']"
    by (simp add: get_repo_dir_def cold_world_def)
  have n: "length (net_log fetched_world) - length (net_log cold_world) = 1"
    by (simp add: fetched_world_def cold_world_def)
  have u: "universal_newlines ''body of a/b'' = ''body of a/b''"
    "universal_newlines ''cached'' = ''cached''"
    by simp_all
  from download_file_cache_hit [OF root, of demo_downloader "''a/b''" "''x''"
        "''body of a/b''" used_downloader fetched_world] cold_fetch
  have "download_file used_downloader ''a/b'' fetched_world =
     (Inr (universal_newlines ''body of a/b''), used_downloader, fetched_world)
   \<and> fetch_twice demo_downloader ''a/b'' cold_world =
     (Inr ''body of a/b'', Inr (universal_newlines ''body of a/b''),
       length (net_log fetched_world) - length (net_log cold_world))"
    by blast
  then have miss: "download_file used_downloader ''a/b'' fetched_world =
     (Inr ''body of a/b'', used_downloader, fetched_world)
   \<and> fetch_twice demo_downloader ''a/b'' cold_world = (Inr ''body of a/b'', Inr ''body of a/b'', 1)"
    by (simp only: n u)
  have warm: "get_repo_dir warm_world = Inr [''repo'']"
    "map_of (files warm_world) (cache_path [''repo''] (session_id demo_downloader) ''a/b'')
       = Some ''cached''"
    by (simp_all add: get_repo_dir_def warm_world_def cold_world_def demo_downloader_def
        cache_path_def str_replace_def literal_match_def)
  from download_file_cache_hit [OF warm(1), of demo_downloader "''a/b''" "''cached''"
        "''x''" demo_downloader warm_world] warm(2)
  have "download_file demo_downloader ''a/b'' warm_world =
     (Inr (universal_newlines ''cached''), demo_downloader, warm_world)"
    by blast
  then have hit: "download_file demo_downloader ''a/b'' warm_world =
     (Inr ''cached'', demo_downloader, warm_world)"
    by (simp only: u)
  from miss hit show ?thesis
    by (simp only: simp_thms)
qed

text \<open>
  As stated, claim C1 counts exactly one request for any two successive fetches and
  has the second return what the first returned. With the cache file already there
  the two fetches send none; with a server that answers 404 both fetches raise and two
  requests are sent; and a body with a carriage return comes back from the cache with
  a line feed in its place.
\<close>

theorem fetch_twice_counterexample:
  "fetch_twice demo_downloader ''a/b'' warm_world = (Inr ''cached'', Inr ''cached'', 0)
   \<and> fetch_twice demo_downloader ''a/b'' failing_world
       = (Inl (HTTPError 404), Inl (HTTPError 404), 2)
   \<and> fetch_twice demo_downloader ''a/b'' crlf_world
       = (Inr [CHR ''a'', CHR 0x0D, CHR 0x0A, CHR ''b''], Inr [CHR ''a'', CHR 0x0A, CHR ''b''], 1)"
  by (simp add: fetch_twice_def download_file_unfold cold_world_def warm_world_def
      failing_world_def failing_server_def crlf_world_def crlf_server_def
      demo_downloader_def cache_path_def str_replace_def literal_match_def)

text \<open>
  Claim C2 (as amended). On a cache miss, once the request has returned a response
  (whatever its status), the throttle deadline is the completion time of the request
  plus the throttle period: \<open>reset_throttle\<close> runs before \<open>raise_for_status\<close>, and
  nothing moves the clock in between. In particular a response with a failing status
  (400 to 599) makes \<open>download_file\<close> raise with the deadline advanced in that way.
  When \<^verbatim>\<open>requests.get\<close> itself raises, the error leaves \<open>download_file\<close> before
  \<open>reset_throttle\<close> is reached, and the deadline keeps the value it had.
\<close>

theorem throttle_reset_before_status_check:
  assumes "get_repo_dir w = Inr root"
    and "map_of (files w) (cache_path root (session_id d) url) = None"
    and "requests_get url (session_id d) (wait_for_throttle d w) = (got, w2)"
  shows "(got = Inr res \<longrightarrow>
           wait_until (fst (snd (download_file d url w))) = clock w2 + throttle_period d
           \<and> clock (snd (snd (download_file d url w))) = clock w2
           \<and> (400 \<le> status_code res \<and> status_code res < 600 \<longrightarrow>
                download_file d url w =
                  (Inl (HTTPError (status_code res)),
                   d\<lparr>wait_until := clock w2 + throttle_period d\<rparr>, w2)))
    \<and> (got = Inl e \<longrightarrow> download_file d url w = (Inl e, d, w2))"
proof (intro conjI impI)
  assume "got = Inl e"
  with assms(3) have "requests_get url (session_id d) (wait_for_throttle d w) = (Inl e, w2)"
    by simp
  with assms(1,2) show "download_file d url w = (Inl e, d, w2)"
    by (rule download_file_raise)
next
  assume "got = Inr res"
  with assms(3) have req: "requests_get url (session_id d) (wait_for_throttle d w) = (Inr res, w2)"
    by simp
  note eq = download_file_miss [OF assms(1,2) req]
  from eq show "wait_until (fst (snd (download_file d url w))) = clock w2 + throttle_period d"
    by (simp add: raise_for_status_def reset_throttle_def write_file_def)
  from eq show "clock (snd (snd (download_file d url w))) = clock w2"
    by (simp add: raise_for_status_def reset_throttle_def write_file_def)
  assume "400 \<le> status_code res \<and> status_code res < 600"
  with eq show "download_file d url w =
      (Inl (HTTPError (status_code res)), d\<lparr>wait_until := clock w2 + throttle_period d\<rparr>, w2)"
    by (simp add: raise_for_status_def reset_throttle_def)
qed

lemma failing_world_facts:
  "get_repo_dir failing_world = Inr [''repo'']"
  "map_of (files failing_world) (cache_path [''repo''] (session_id demo_downloader) ''a/b'') = None"
  "requests_get ''a/b'' (session_id demo_downloader)
       (wait_for_throttle demo_downloader failing_world)
     = (Inr \<lparr>status_code = 404, res_text = ''not found''\<rparr>, failed_world)"
  "reset_throttle demo_downloader failed_world = used_downloader"
  by (simp_all add: get_repo_dir_def failing_world_def cold_world_def requests_get_def
      wait_for_throttle_def sleep_def demo_downloader_def failing_server_def failed_world_def
      reset_throttle_def used_downloader_def)

lemma unreachable_world_facts:
  "get_repo_dir unreachable_world = Inr [''repo'']"
  "map_of (files unreachable_world) (cache_path [''repo''] (session_id demo_downloader) ''a/b'')
     = None"
  "requests_get ''a/b'' (session_id demo_downloader)
       (wait_for_throttle demo_downloader unreachable_world)
     = (Inl ConnectionError, unreached_world)"
  by (simp_all add: get_repo_dir_def unreachable_world_def cold_world_def requests_get_def
      wait_for_throttle_def sleep_def demo_downloader_def unreachable_server_def
      unreached_world_def)

theorem throttle_reset_before_status_check_witness:
  "requests_get ''a/b'' (session_id demo_downloader)
       (wait_for_throttle demo_downloader failing_world)
     = (Inr \<lparr>status_code = 404, res_text = ''not found''\<rparr>, failed_world)
   \<and> clock failed_world = 137 \<and> throttle_period demo_downloader = 5000000
   \<and> download_file demo_downloader ''a/b'' failing_world =
       (Inl (HTTPError 404), demo_downloader\<lparr>wait_until := 137 + 5000000\<rparr>, failed_world)
   \<and> requests_get ''a/b'' (session_id demo_downloader)
       (wait_for_throttle demo_downloader unreachable_world)
     = (Inl ConnectionError, unreached_world)
   \<and> download_file demo_downloader ''a/b'' unreachable_world
     = (Inl ConnectionError, demo_downloader, unreached_world)"
proof -
  have "clock failed_world = 137" and "throttle_period demo_downloader = 5000000"
    by (simp_all add: failed_world_def demo_downloader_def)
  with throttle_reset_before_status_check [OF failing_world_facts(1-3),
      of "\<lparr>status_code = 404, res_text = ''not found''\<rparr>" ConnectionError]
    throttle_reset_before_status_check [OF unreachable_world_facts(1-3),
      of "\<lparr>status_code = 404, res_text = ''not found''\<rparr>" ConnectionError]
    failing_world_facts(3) unreachable_world_facts(3)
  show ?thesis
    by simp
qed

text \<open>
  As stated, claim C2 has every fetch that misses the cache set the deadline to the
  completion time of its request plus the throttle period. A request that fails
  inside \<^verbatim>\<open>requests.get\<close> is sent and takes its time (the clock goes from 130, the
  end of the wait, to 137), yet the deadline is still 130 afterwards, not 137 plus
  the period: the next request is not held back.
\<close>

theorem throttle_not_reset_when_request_raises:
  "map_of (files unreachable_world) (cache_path [''repo''] (session_id demo_downloader) ''a/b'')
     = None
   \<and> download_file demo_downloader ''a/b'' unreachable_world
     = (Inl ConnectionError, demo_downloader, unreached_world)
   \<and> net_log unreached_world = [(''a/b'', ''tok'')]
   \<and> clock unreached_world = 137
   \<and> wait_until demo_downloader = 130
   \<and> wait_until demo_downloader \<noteq> clock unreached_world + throttle_period demo_downloader"
  by (simp add: download_file_unfold unreachable_world_def cold_world_def
      unreachable_server_def unreached_world_def demo_downloader_def cache_path_def
      str_replace_def literal_match_def)

text \<open>
  Claim C3. On a cache miss whose response has a failing status (400 to 599, the
  statuses \<open>raise_for_status\<close> refuses), \<open>download_file\<close> raises \<open>HTTPError\<close> and
  writes nothing: the files are those before the call, the cache file still does not
  exist, and a later fetch of the same URL sends a request again.
\<close>

theorem failing_status_not_cached:
  assumes "get_repo_dir w = Inr root"
    and "map_of (files w) (cache_path root (session_id d) url) = None"
    and "requests_get url (session_id d) (wait_for_throttle d w) = (Inr res, w2)"
    and "400 \<le> status_code res" and "status_code res < 600"
  shows "download_file d url w = (Inl (HTTPError (status_code res)), reset_throttle d w2, w2)
    \<and> files w2 = files w
    \<and> map_of (files w2) (cache_path root (session_id (reset_throttle d w2)) url) = None
    \<and> net_log (snd (snd (download_file (reset_throttle d w2) url w2)))
        = net_log w2 @ [(url, session_id d)]"
proof -
  from download_file_miss [OF assms(1-3)] assms(4,5)
  have result: "download_file d url w =
      (Inl (HTTPError (status_code res)), reset_throttle d w2, w2)"
    by (simp add: raise_for_status_def)
  from requests_get_clock [OF assms(3)]
  have same: "files w2 = files w" and repo: "repo_dir w2 = repo_dir w"
    by (simp_all add: wait_for_throttle_clock)
  have sid: "session_id (reset_throttle d w2) = session_id d"
    by (simp add: reset_throttle_def)
  from same assms(2) sid
  have miss: "map_of (files w2) (cache_path root (session_id (reset_throttle d w2)) url) = None"
    by simp
  from repo assms(1) have root: "get_repo_dir w2 = Inr root"
    by (simp add: get_repo_dir_def)
  obtain r d3 w3 where later: "download_file (reset_throttle d w2) url w2 = (r, d3, w3)"
    by (cases "download_file (reset_throttle d w2) url w2") auto
  from download_file_miss_log [OF root miss later] later sid
  have "net_log (snd (snd (download_file (reset_throttle d w2) url w2)))
        = net_log w2 @ [(url, session_id d)]"
    by simp
  with result same miss show ?thesis by simp
qed

theorem failing_status_not_cached_witness:
  "download_file demo_downloader ''a/b'' failing_world =
       (Inl (HTTPError 404), used_downloader, failed_world)
   \<and> files failed_world = [] \<and> files failing_world = []
   \<and> net_log (snd (snd (download_file used_downloader ''a/b'' failed_world)))
      = [(''a/b'', ''tok''), (''a/b'', ''tok'')]"
proof -
  have "files failing_world = []" and "net_log failed_world = [(''a/b'', ''tok'')]"
    and "session_id demo_downloader = ''tok''"
    by (simp_all add: failing_world_def cold_world_def failed_world_def demo_downloader_def)
  with failing_status_not_cached [OF failing_world_facts(1-3)]
  show ?thesis
    by (simp add: failing_world_facts(4))
qed


lemma str_replace_slash:
  "str_replace ''/'' ''_'' s = map (\<lambda>c. if c = CHR ''/'' then CHR ''_'' else c) s"
  by (induction s) (simp_all add: str_replace_def literal_match_def)

text \<open>
  Claim C10. The cache path is not injective in the URL: replacing a slash of a URL
  by an underscore gives another URL with the same cache file under the same
  session (for instance the two URLs below). So after a successful fetch of one URL,
  a fetch of any other URL with the same cache path returns the body cached for the
  first, as reading the cache file in text mode gives it (the body with its line ends
  translated), and leaves the downloader and the world, hence the request log, as they
  were.
\<close>

theorem cache_path_not_injective:
  "''https://adventofcode.com/2020/day/1/input'' \<noteq> ''https://adventofcode.com/2020/day/1_input''
   \<and> cache_path root session ''https://adventofcode.com/2020/day/1/input''
       = cache_path root session ''https://adventofcode.com/2020/day/1_input''
   \<and> (CHR ''/'' \<in> set url \<longrightarrow>
         str_replace ''/'' ''_'' url \<noteq> url
         \<and> cache_path root session (str_replace ''/'' ''_'' url) = cache_path root session url)
   \<and> (get_repo_dir w = Inr root
        \<and> cache_path root (session_id d) url1 = cache_path root (session_id d) url2
        \<and> download_file d url1 w = (Inr body, d1, w1) \<longrightarrow>
         download_file d1 url2 w1 = (Inr (universal_newlines body), d1, w1))"
proof (intro conjI impI)
  show "''https://adventofcode.com/2020/day/1/input'' \<noteq> ''https://adventofcode.com/2020/day/1_input''"
    by simp
  show "cache_path root session ''https://adventofcode.com/2020/day/1/input''
       = cache_path root session ''https://adventofcode.com/2020/day/1_input''"
    by (simp add: cache_path_def str_replace_slash)
next
  assume slash: "CHR ''/'' \<in> set url"
  have "CHR ''/'' \<notin> set (str_replace ''/'' ''_'' url)"
    by (auto simp: str_replace_slash)
  with slash show "str_replace ''/'' ''_'' url \<noteq> url"
    by auto
  have "str_replace ''/'' ''_'' (str_replace ''/'' ''_'' url) = str_replace ''/'' ''_'' url"
    by (simp add: str_replace_slash)
  then show "cache_path root session (str_replace ''/'' ''_'' url) = cache_path root session url"
    by (simp add: cache_path_def)
next
  assume h: "get_repo_dir w = Inr root
        \<and> cache_path root (session_id d) url1 = cache_path root (session_id d) url2
        \<and> download_file d url1 w = (Inr body, d1, w1)"
  from h download_file_success [of w root d url1 body d1 w1] obtain stored
    where sid: "session_id d1 = session_id d" and root: "get_repo_dir w1 = Inr root"
      and cached: "map_of (files w1) (cache_path root (session_id d) url1) = Some stored"
      and same: "universal_newlines stored = universal_newlines body"
    by blast
  from cached h sid have "map_of (files w1) (cache_path root (session_id d1) url2) = Some stored"
    by simp
  with root have "download_file d1 url2 w1 = (Inr (universal_newlines stored), d1, w1)"
    by (rule download_file_hit)
  with same show "download_file d1 url2 w1 = (Inr (universal_newlines body), d1, w1)"
    by simp
qed

theorem cache_path_not_injective_witness:
  "download_file demo_downloader ''a/b'' cold_world
      = (Inr ''body of a/b'', used_downloader, fetched_world)
   \<and> download_file used_downloader ''a_b'' fetched_world
      = (Inr ''body of a/b'', used_downloader, fetched_world)
   \<and> res_text (projr (outcome (server fetched_world ''a_b'' ''tok'' 137))) = ''body of a_b''
   \<and> str_replace ''/'' ''_'' ''a/b'' = ''a_b''"
proof -
  have root: "get_repo_dir cold_world = Inr [''repo'']"
    by (simp add: get_repo_dir_def cold_world_def)
  have same: "cache_path [''repo''] (session_id demo_downloader) ''a/b''
      = cache_path [''repo''] (session_id demo_downloader) ''a_b''"
    by (simp add: cache_path_def str_replace_slash)
  have slash: "CHR ''/'' \<in> set ''a/b''"
    by simp
  have srv: "res_text (projr (outcome (server fetched_world ''a_b'' ''tok'' 137))) = ''body of a_b''"
    by (simp add: fetched_world_def cold_world_def ok_server_def)
  have rep: "str_replace ''/'' ''_'' ''a/b'' = ''a_b''"
    by (simp add: str_replace_slash)
  have u: "universal_newlines ''body of a/b'' = ''body of a/b''"
    by simp
  from cache_path_not_injective [where root = "[''repo'']" and session = "''tok''"
      and url = "''a/b''" and w = cold_world and d = demo_downloader and ?url1.0 = "''a/b''"
      and ?url2.0 = "''a_b''" and body = "''body of a/b''" and ?d1.0 = used_downloader
      and ?w1.0 = fetched_world]
    root same cold_fetch slash srv rep u
  show ?thesis
    by simp
qed


section \<open>The release gate\<close>

text \<open>
  The day count of the calendar: year 1 starts at day 0, and each year adds its 365
  or 366 days.
\<close>

lemma div_step:
  fixes y k :: int
  assumes "0 < k"
  shows "y div k = (y - 1) div k + (if y mod k = 0 then 1 else 0)"
proof (cases "y mod k = 0")
  case True
  have "y = k * (y div k)"
    using True by (metis mult_div_mod_eq add.right_neutral)
  then have "y - 1 = k * (y div k - 1) + (k - 1)"
    by (simp add: algebra_simps)
  from int_div_pos_eq [OF this] assms have "(y - 1) div k = y div k - 1"
    by simp
  with True show ?thesis by simp
next
  case False
  have pos: "0 < y mod k" using False assms
    by (simp add: less_le)
  have "y - 1 = k * (y div k) + (y mod k - 1)"
    by (simp add: algebra_simps)
  moreover have "y mod k - 1 < k"
    using pos_mod_bound [OF assms, of y] by simp
  ultimately have "(y - 1) div k = y div k"
    using pos by (intro int_div_pos_eq [of "y - 1" k "y div k" "y mod k - 1"]) simp_all
  with False show ?thesis by simp
qed


lemma mod_400_100: "(y::int) mod 400 = 0 \<Longrightarrow> y mod 100 = 0"
  using mod_mod_cancel [of 100 400 y] by simp

lemma mod_100_4: "(y::int) mod 100 = 0 \<Longrightarrow> y mod 4 = 0"
  using mod_mod_cancel [of 4 100 y] by simp

lemma days_before_year_step:
  "days_before_year (y + 1) = days_before_year y + days_in_year y"
proof -
  define e4 :: int where "e4 = (if y mod 4 = 0 then 1 else 0)"
  define e100 :: int where "e100 = (if y mod 100 = 0 then 1 else 0)"
  define e400 :: int where "e400 = (if y mod 400 = 0 then 1 else 0)"
  have d4: "y div 4 = (y - 1) div 4 + e4"
    unfolding e4_def by (rule div_step) simp
  have d100: "y div 100 = (y - 1) div 100 + e100"
    unfolding e100_def by (rule div_step) simp
  have d400: "y div 400 = (y - 1) div 400 + e400"
    unfolding e400_def by (rule div_step) simp
  have "days_before_year (y + 1) = y * 365 + y div 4 - y div 100 + y div 400"
    by (simp add: days_before_year_def)
  also have "\<dots> = days_before_year y + (365 + e4 - e100 + e400)"
    unfolding days_before_year_def d4 d100 d400 by (simp add: algebra_simps)
  also have "365 + e4 - e100 + e400 = days_in_year y"
  proof (cases "y mod 4 = 0")
    case False
    with mod_100_4 [of y] mod_400_100 [of y] show ?thesis
      by (auto simp: e4_def e100_def e400_def days_in_year_def is_leap_def)
  next
    case True
    with mod_400_100 [of y] show ?thesis
      by (auto simp: e4_def e100_def e400_def days_in_year_def is_leap_def)
  qed
  finally show ?thesis .
qed

lemma epoch_ordinal: "ymd2ord 1970 1 1 = 719163"
  by (simp add: ymd2ord_def days_before_year_def days_before_month_def is_leap_def)

lemma december_valid:
  "1 \<le> day \<Longrightarrow> day \<le> 31 \<Longrightarrow> 1 \<le> day \<and> day \<le> days_in_month y 12"
  by (simp add: days_in_month_def)

lemma problem_released_value_error:
  "day < 1 \<or> 31 < day \<or> year d < 1 \<or> 9999 < year d \<Longrightarrow> problem_released d day w = Inl ValueError"
  by (auto simp: problem_released_def datetime_tz_def days_in_month_def Let_def)

text \<open>
  Claim C4. For a day of December (1 to 31) and a year \<open>datetime\<close> accepts,
  \<open>problem_released\<close> returns true exactly when the current instant is strictly
  after December \<open>day\<close>, 00:00 of the configured year in the fixed offset UTC-5: it
  is false strictly before the release instant and at the release instant itself,
  and true strictly after it.
\<close>

theorem problem_released_iff:
  assumes "1 \<le> year d" and "year d \<le> 9999" and "1 \<le> day" and "day \<le> 31"
  shows "problem_released d day w = Inr (release_instant (year d) day < clock w)
    \<and> (clock w < release_instant (year d) day \<longrightarrow> problem_released d day w = Inr False)
    \<and> (clock w = release_instant (year d) day \<longrightarrow> problem_released d day w = Inr False)
    \<and> (release_instant (year d) day < clock w \<longrightarrow> problem_released d day w = Inr True)"
proof -
  have "datetime_tz (year d) 12 day (timedelta_hours (- 5)) = Inr (release_instant (year d) day)"
    using assms
    by (simp add: datetime_tz_def days_in_month_def release_instant_def utc_midnight_def
        epoch_ordinal timedelta_hours_def)
  then have "problem_released d day w = Inr (release_instant (year d) day < clock w)"
    by (simp add: problem_released_def Let_def)
  then show ?thesis by simp
qed

lemma release_2020_1: "release_instant 2020 1 = 1606798800000000"
  by (simp add: release_instant_def utc_midnight_def ymd2ord_def days_before_year_def
      days_before_month_def is_leap_def us_per_day_def)

theorem problem_released_iff_witness:
  "release_instant (year demo_downloader) 1 = 1606798800 * 1000000
   \<and> problem_released demo_downloader 1 (cold_world\<lparr>clock := 1606798800000000\<rparr>) = Inr False
   \<and> problem_released demo_downloader 1 (cold_world\<lparr>clock := 1606798800000001\<rparr>) = Inr True
   \<and> problem_released demo_downloader 1 (cold_world\<lparr>clock := 1606798799999999\<rparr>) = Inr False"
proof -
  have y: "year demo_downloader = 2020"
    by (simp add: demo_downloader_def)
  have v: "1 \<le> year demo_downloader" "year demo_downloader \<le> 9999" "(1::int) \<le> 1" "(1::int) \<le> 31"
    by (simp_all add: y)
  from problem_released_iff [OF v, of "cold_world\<lparr>clock := 1606798800000000\<rparr>"]
    problem_released_iff [OF v, of "cold_world\<lparr>clock := 1606798800000001\<rparr>"]
    problem_released_iff [OF v, of "cold_world\<lparr>clock := 1606798799999999\<rparr>"]
  show ?thesis
    by (simp add: y release_2020_1)
qed


section \<open>Example blocks\<close>

lemma str_contains_iff: "str_contains needle s \<longleftrightarrow> (\<exists>ps ss. s = ps @ needle @ ss)"
proof (induction s)
  case Nil
  then show ?case by auto
next
  case (Cons c cs)
  show ?case
  proof
    assume "str_contains needle (c # cs)"
    then consider "prefix needle (c # cs)" | "str_contains needle cs" by auto
    then show "\<exists>ps ss. c # cs = ps @ needle @ ss"
    proof cases
      case 1
      then obtain ss where "c # cs = needle @ ss" by (auto simp: prefix_def)
      then have "c # cs = [] @ needle @ ss" by simp
      then show ?thesis by blast
    next
      case 2
      with Cons.IH obtain ps ss where "cs = ps @ needle @ ss" by blast
      then have "c # cs = (c # ps) @ needle @ ss" by simp
      then show ?thesis by blast
    qed
  next
    assume "\<exists>ps ss. c # cs = ps @ needle @ ss"
    then obtain ps ss where eq: "c # cs = ps @ needle @ ss" by blast
    show "str_contains needle (c # cs)"
    proof (cases ps)
      case Nil
      with eq have "prefix needle (c # cs)" by (simp add: prefix_def)
      then show ?thesis by simp
    next
      case (Cons p ps')
      with eq have "cs = ps' @ needle @ ss" by simp
      with Cons.IH have "str_contains needle cs" by blast
      then show ?thesis by simp
    qed
  qed
qed

lemma find_caption_caption:
  "find_caption preceding = (case caption preceding of None \<Rightarrow> Inl AttributeError | Some c \<Rightarrow> Inr c)"
  by (induction preceding) (simp_all add: caption_def)

lemma collect_examples_spec:
  "collect_examples blocks examples =
     (if list_all (\<lambda>b. caption (fst b) \<noteq> None) blocks
      then Inr (examples @ map (\<lambda>b. get_text (snd b)) (filter is_example_block blocks))
      else Inl AttributeError)"
proof (induction blocks arbitrary: examples)
  case Nil
  then show ?case by simp
next
  case (Cons b blocks)
  obtain preceding code_block where b: "b = (preceding, code_block)" by (cases b)
  show ?case
  proof (cases "caption preceding")
    case None
    then show ?thesis by (simp add: b find_caption_caption)
  next
    case (Some c)
    then have ex: "is_example_block (preceding, code_block)
        = str_contains ''example'' (lower (get_text c))"
      by (simp add: is_example_block_def)
    from Some show ?thesis
      by (simp add: b find_caption_caption Cons.IH ex)
  qed
qed


lemma download_examples_released:
  assumes "problem_released d day w = Inr True"
    and "download_file d (page_url (year d) day) w = (Inr html, d1, w1)"
  shows "download_examples parse d day w =
     (case collect_examples (find_all_pre (parse html)) [] of
        Inl e \<Rightarrow> (Inl e, d1, w1)
      | Inr examples \<Rightarrow> (Inr (Some examples), d1, w1))"
  using assms by (simp add: download_examples_def)

lemma find_all_pre_in_chain:
  "(rev xs @ before, Tag ''pre'' children)
     \<in> set (find_all_pre_in before (xs @ Tag ''pre'' children # ys))"
proof (induction xs arbitrary: before)
  case Nil
  then show ?case by simp
next
  case (Cons x xs)
  from Cons.IH [of "x # before"] show ?case
    by (cases x) simp_all
qed

lemma released_world_facts:
  "problem_released demo_downloader 1 released_world = Inr True"
  "problem_released demo_downloader 2 released_world = Inr True"
  "download_file demo_downloader (page_url (year demo_downloader) 1) released_world
     = (Inr ''<html>'', demo_downloader, released_world)"
  "download_file demo_downloader (page_url (year demo_downloader) 2) released_world
     = (Inr ''<bad>'', demo_downloader, released_world)"
  by (simp_all add: problem_released_def datetime_tz_def days_in_month_def ymd2ord_def
      days_before_year_def days_before_month_def is_leap_def us_per_day_def timedelta_hours_def
      released_world_def cold_world_def demo_downloader_def download_file_def get_repo_dir_def
      path_exists_def read_text_def cache_path_def page_url_def str_int_def str_replace_slash)

lemma demo_soup_facts:
  "all_captioned demo_soup"
  "example_blocks demo_soup = [''1 2'', ''4'']"
  by code_simp+


lemma malformed_soup_facts:
  "find_all_pre malformed_soup =
     [([Str NavigableString ''  ''], Tag ''pre'' [Str NavigableString ''5''])]"
  "list_all (\<lambda>p. strip (get_text p) = []) [Str NavigableString ''  '']"
  by code_simp+

text \<open>
  Claim C6. On a page where every \<open>pre\<close> block has a caption (a nearest preceding
  sibling with text other than white space), the loop of \<open>download_examples\<close> returns
  the texts of exactly the blocks whose caption contains \<open>example\<close> in any case, in
  document order; the list may be empty. On any other page it raises (claim C8). So
  does \<open>download_examples\<close> once the problem is released and the page fetched.
\<close>

theorem download_examples_captions:
  "collect_examples (find_all_pre soup) [] =
     (if all_captioned soup then Inr (example_blocks soup) else Inl AttributeError)
   \<and> (problem_released d day w = Inr True
        \<and> download_file d (page_url (year d) day) w = (Inr html, d1, w1)
        \<and> all_captioned (parse html) \<longrightarrow>
      download_examples parse d day w = (Inr (Some (example_blocks (parse html))), d1, w1))"
proof -
  have eq: "collect_examples (find_all_pre s) [] =
     (if all_captioned s then Inr (example_blocks s) else Inl AttributeError)" for s
    by (simp add: collect_examples_spec all_captioned_def example_blocks_def)
  show ?thesis
    using download_examples_released [of d day w html d1 w1 parse]
    by (auto simp: eq)
qed


theorem download_examples_captions_witness:
  "all_captioned (demo_parse ''<html>'')
   \<and> download_examples demo_parse demo_downloader 1 released_world
       = (Inr (Some [''1 2'', ''4'']), demo_downloader, released_world)"
proof -
  have p: "demo_parse ''<html>'' = demo_soup"
    by (simp add: demo_parse_def)
  from download_examples_captions [of demo_soup demo_downloader 1 released_world "''<html>''"
      demo_downloader released_world demo_parse]
    released_world_facts(1,3) demo_soup_facts
  show ?thesis
    by (simp add: p)
qed

text \<open>
  Claim C8. When a \<open>pre\<close> block of the page has no preceding sibling with text other
  than white space, the walk over its \<open>previous_sibling\<close> chain ends at the start of
  the chain with \<open>AttributeError\<close>: the loop returns no caption, \<open>download_examples\<close>
  raises that error and returns no list. The walk is a total function on the finite
  chain, so it cannot run forever.
\<close>

theorem caption_walk_off_start:
  assumes "(preceding, code_block) \<in> set (find_all_pre soup)"
    and "list_all (\<lambda>p. strip (get_text p) = []) preceding"
  shows "find_caption preceding = Inl AttributeError
    \<and> collect_examples (find_all_pre soup) [] = Inl AttributeError
    \<and> (problem_released d day w = Inr True
        \<and> download_file d (page_url (year d) day) w = (Inr html, d1, w1)
        \<and> parse html = soup \<longrightarrow>
       download_examples parse d day w = (Inl AttributeError, d1, w1))"
proof -
  from assms(2) have none: "caption preceding = None"
    by (simp add: caption_def find_None_iff list_all_iff)
  then have walk: "find_caption preceding = Inl AttributeError"
    by (simp add: find_caption_caption)
  from none assms(1) have "\<not> list_all (\<lambda>b. caption (fst b) \<noteq> None) (find_all_pre soup)"
    by (force simp: list_all_iff)
  then have coll: "collect_examples (find_all_pre soup) [] = Inl AttributeError"
    by (simp add: collect_examples_spec)
  show ?thesis
    using walk coll download_examples_released [of d day w html d1 w1 parse]
    by auto
qed

theorem caption_walk_off_start_witness:
  "find_caption [Str NavigableString ''  ''] = Inl AttributeError
   \<and> collect_examples (find_all_pre malformed_soup) [] = Inl AttributeError
   \<and> download_examples demo_parse demo_downloader 2 released_world
       = (Inl AttributeError, demo_downloader, released_world)"
proof -
  have p: "demo_parse ''<bad>'' = malformed_soup"
    by (simp add: demo_parse_def)
  have m: "([Str NavigableString ''  ''], Tag ''pre'' [Str NavigableString ''5''])
      \<in> set (find_all_pre malformed_soup)"
    by (simp add: malformed_soup_facts(1))
  from caption_walk_off_start [OF m malformed_soup_facts(2), of demo_downloader 2 released_world
      "''<bad>''" demo_downloader released_world demo_parse]
    released_world_facts(2,4) p
  show ?thesis
    by simp
qed


section \<open>The template expander\<close>

lemma sub_scan_no_match:
  "(\<And>i. i \<le> length s \<Longrightarrow> m (drop i s) = None) \<Longrightarrow> sub_scan m s = s"
proof (induction s)
  case Nil
  from Nil [of 0] show ?case by simp
next
  case (Cons c cs)
  from Cons.prems [of 0] have here: "m (c # cs) = None" by simp
  have "m (drop i cs) = None" if "i \<le> length cs" for i
    using Cons.prems [of "Suc i"] that by simp
  then have "sub_scan m cs = cs" by (rule Cons.IH)
  with here show ?case by simp
qed

lemma re_search_fn_iff:
  "re_search_fn header literal s \<longleftrightarrow> (\<exists>i\<le>length s. match_fn header literal (drop i s) \<noteq> None)"
proof -
  have "set [0..<Suc (length s)] = {i. i \<le> length s}"
    by auto
  then show ?thesis
    unfolding re_search_fn_def list_ex_iff by blast
qed

lemma re_sub_fn_no_match:
  assumes "\<not> re_search_fn header literal s"
  shows "re_sub_fn header literal repl s = s"
proof -
  have "fn_matcher header literal repl (drop i s) = None" if "i \<le> length s" for i
  proof -
    from assms that have "match_fn header literal (drop i s) = None"
      unfolding re_search_fn_iff by blast
    then show ?thesis by (simp add: fn_matcher_def)
  qed
  then show ?thesis
    unfolding re_sub_fn_def by (rule sub_scan_no_match)
qed

lemma format_02d_values:
  "map format_02d [2..25] =
     [''02'', ''03'', ''04'', ''05'', ''06'', ''07'', ''08'', ''09'', ''10'', ''11'', ''12'', ''13'',
      ''14'', ''15'', ''16'', ''17'', ''18'', ''19'', ''20'', ''21'', ''22'', ''23'', ''24'', ''25'']"
  by code_simp

lemma format_02d_inj: "inj_on format_02d (set [2..25])"
proof -
  have "distinct (map format_02d [2..25])"
    unfolding format_02d_values by simp
  then show ?thesis
    by (simp only: distinct_map)
qed

lemma fold_write_other:
  "k \<notin> key ` set days \<Longrightarrow>
     map_of (files (fold (\<lambda>d. write_file (key d) (val d)) days w)) k = map_of (files w) k"
  by (induction days arbitrary: w) (auto simp: write_file_def update_conv')

lemma fold_write_day:
  "inj_on key (set days) \<Longrightarrow> day \<in> set days \<Longrightarrow>
     map_of (files (fold (\<lambda>d. write_file (key d) (val d)) days w)) (key day) = Some (val day)"
proof (induction days arbitrary: w)
  case Nil
  then show ?case by simp
next
  case (Cons x xs)
  show ?case
  proof (cases "day \<in> set xs")
    case True
    with Cons show ?thesis by simp
  next
    case False
    with Cons.prems have x: "day = x" by simp
    from False Cons.prems(1) x have "key day \<notin> key ` set xs"
      by (auto simp: inj_on_def)
    then have "map_of (files (fold (\<lambda>d. write_file (key d) (val d)) xs
          (write_file (key x) (val x) w))) (key day)
        = map_of (files (write_file (key x) (val x) w)) (key day)"
      by (rule fold_write_other)
    moreover have "map_of (files (write_file (key x) (val x) w)) (key x) = Some (val x)"
      by (simp add: write_file_def update_conv')
    ultimately show ?thesis
      by (simp add: x)
  qed
qed


lemma template_main_writes:
  assumes "get_repo_dir w = Inr repo"
    and "map_of (files w) (repo @ [''src'', ''solutions'', ''day01.rs'']) = Some template"
    and "2 \<le> day" and "day \<le> 25"
  shows "fst (use_day01_as_template_main w) = Inr ()
    \<and> map_of (files (snd (use_day01_as_template_main w)))
         (repo @ [''src'', ''solutions'', ''day'' @ format_02d day @ ''.rs''])
       = Some (expand_template day (universal_newlines template))"
proof -
  define days :: "int list" where "days = [2..25]"
  let ?key = "\<lambda>d. repo @ [''src'', ''solutions'', ''day'' @ format_02d d @ ''.rs'']"
  have inj: "inj_on ?key (set days)"
  proof (rule inj_onI)
    fix a b
    assume a: "a \<in> set days" and b: "b \<in> set days" and "?key a = ?key b"
    then have eq: "format_02d a = format_02d b"
      by simp
    from format_02d_inj eq a b show "a = b"
      unfolding days_def by (rule inj_onD)
  qed
  from assms(3,4) have mem: "day \<in> set days"
    unfolding days_def set_upto by simp
  let ?text = "universal_newlines template"
  have written: "map_of (files (fold (\<lambda>d. write_file (?key d) (expand_template d ?text)) days w))
          (?key day) = Some (expand_template day ?text)"
    using inj mem by (rule fold_write_day)
  from assms(1,2) have "use_day01_as_template_main w =
      (Inr (), fold (\<lambda>d. write_file (?key d) (expand_template d ?text)) days w)"
    unfolding days_def [symmetric] use_day01_as_template_main_def Let_def days_def [symmetric]
    by (simp add: read_text_def)
  with written show ?thesis
    by simp
qed

text \<open>
  Claim C9. A structural substitution whose pattern matches nowhere in the text
  returns the text unchanged, and nothing is raised: when neither pattern matches
  the text the two replacements have produced, the expansion is that text. The
  expander writes the file of every day from 2 to 25 all the same, with the
  expansion of the template, as read in text mode, as contents.
\<close>

theorem unmatched_pattern_no_op:
  "(\<not> re_search_fn header literal s \<longrightarrow> re_sub_fn header literal repl s = s)
   \<and> (\<not> re_search_fn day_header ''1''
           (str_replace ''  1'' (''  '' @ str_int day)
              (str_replace ''Day01'' (''Day'' @ format_02d day) template))
        \<and> \<not> re_search_fn implemented_header ''true''
           (str_replace ''  1'' (''  '' @ str_int day)
              (str_replace ''Day01'' (''Day'' @ format_02d day) template)) \<longrightarrow>
      expand_template day template =
        str_replace ''  1'' (''  '' @ str_int day)
          (str_replace ''Day01'' (''Day'' @ format_02d day) template))
   \<and> (get_repo_dir w = Inr repo
        \<and> map_of (files w) (repo @ [''src'', ''solutions'', ''day01.rs'']) = Some template
        \<and> 2 \<le> d \<and> d \<le> 25 \<longrightarrow>
      fst (use_day01_as_template_main w) = Inr ()
      \<and> map_of (files (snd (use_day01_as_template_main w)))
           (repo @ [''src'', ''solutions'', ''day'' @ format_02d d @ ''.rs''])
         = Some (expand_template d (universal_newlines template)))"
  using re_sub_fn_no_match [of header literal s repl] template_main_writes [of w repo template d]
  by (simp add: expand_template_def Let_def re_sub_fn_no_match)


lemma shapeless_facts:
  "str_replace ''  1'' (''  '' @ str_int 2)
     (str_replace ''Day01'' (''Day'' @ format_02d 2) shapeless_template)
   = ''// Day02: fn day() -> i32 { 1 }''"
  "\<not> re_search_fn day_header ''1'' ''// Day02: fn day() -> i32 { 1 }''"
  "\<not> re_search_fn implemented_header ''true'' ''// Day02: fn day() -> i32 { 1 }''"
  "format_02d 2 = ''02''"
  "universal_newlines shapeless_template = shapeless_template"
  by code_simp+

theorem unmatched_pattern_no_op_witness:
  "re_sub_fn day_header ''1'' ''2'' ''// Day02: fn day() -> i32 { 1 }''
     = ''// Day02: fn day() -> i32 { 1 }''
   \<and> expand_template 2 shapeless_template = ''// Day02: fn day() -> i32 { 1 }''
   \<and> fst (use_day01_as_template_main template_world) = Inr ()
   \<and> map_of (files (snd (use_day01_as_template_main template_world)))
        [''repo'', ''src'', ''solutions'', ''day02.rs'']
      = Some ''// Day02: fn day() -> i32 { 1 }''"
proof -
  have w: "get_repo_dir template_world = Inr [''repo'']"
    "map_of (files template_world) ([''repo''] @ [''src'', ''solutions'', ''day01.rs''])
       = Some shapeless_template"
    by (simp_all add: template_world_def cold_world_def get_repo_dir_def)
  from unmatched_pattern_no_op [of day_header "''1''" "''// Day02: fn day() -> i32 { 1 }''"
      "''2''" 2 shapeless_template template_world "[''repo'']" 2]
    shapeless_facts w
  show ?thesis
    by simp
qed


subsection \<open>The scope of the substitutions\<close>

text \<open>
  The four passes of the expander are scans. A scan of two texts side by side is the
  two scans side by side when no match of the first sees the second: a match is
  not empty, stays inside the text it is tried on, and is the same with and without
  the second text behind.
\<close>

lemma sub_scan_append:
  assumes same: "\<And>x y. y \<noteq> [] \<Longrightarrow> a = x @ y \<Longrightarrow> m (y @ b) = m y"
    and inside: "\<And>y out n. m y = Some (out, n) \<Longrightarrow> 0 < n \<and> n \<le> length y"
    and empty: "m [] = None"
  shows "sub_scan m (a @ b) = sub_scan m a @ sub_scan m b"
  using same
proof (induction a rule: length_induct)
  case (1 a)
  show ?case
  proof (cases a)
    case Nil
    with empty show ?thesis by simp
  next
    case (Cons c cs)
    from "1.prems" [of a "[]"] Cons have here: "m ((c # cs) @ b) = m (c # cs)"
      by simp
    show ?thesis
    proof (cases "m (c # cs)")
      case None
      have "sub_scan m (cs @ b) = sub_scan m cs @ sub_scan m b"
      proof (rule "1.IH" [rule_format])
        show "length cs < length a" using Cons by simp
      next
        fix x y assume "y \<noteq> []" and "cs = x @ y"
        with Cons have "a = (c # x) @ y" by simp
        with \<open>y \<noteq> []\<close> show "m (y @ b) = m y" by (rule "1.prems")
      qed
      with None here Cons show ?thesis by simp
    next
      case (Some r)
      obtain out n where r: "r = (out, n)" by (cases r)
      from inside [of "c # cs" out n] Some r have n: "0 < n" "n \<le> length (c # cs)"
        by simp_all
      have "sub_scan m (drop n (c # cs) @ b) = sub_scan m (drop n (c # cs)) @ sub_scan m b"
      proof (rule "1.IH" [rule_format])
        show "length (drop n (c # cs)) < length a" using Cons n by simp
      next
        fix x y assume "y \<noteq> []" and "drop n (c # cs) = x @ y"
        then have "a = (take n (c # cs) @ x) @ y"
          using Cons by (metis append_assoc append_take_drop_id)
        with \<open>y \<noteq> []\<close> show "m (y @ b) = m y" by (rule "1.prems")
      qed
      moreover from n have "drop n ((c # cs) @ b) = drop n (c # cs) @ b"
        by (simp only: drop_append) simp
      ultimately show ?thesis
        using Some r here n Cons by simp
    qed
  qed
qed

text \<open>
  What a text behind changes for a prefix test and for the white space a match
  skips: nothing, when that text starts with a character the pattern cannot take, or
  when the text before ends with one.
\<close>

lemma takeWhile_stop:
  "z \<noteq> [] \<Longrightarrow> \<not> P (hd z) \<Longrightarrow> takeWhile P (x @ z) = takeWhile P x"
  by (induction x) (auto simp: neq_Nil_conv)

lemma dropWhile_stop:
  "z \<noteq> [] \<Longrightarrow> \<not> P (hd z) \<Longrightarrow> dropWhile P (x @ z) = dropWhile P x @ z"
  by (induction x) (auto simp: neq_Nil_conv)

lemma prefix_append_foreign:
  assumes "z \<noteq> []" and "hd z \<notin> set p"
  shows "prefix p (x @ z) \<longleftrightarrow> prefix p x"
proof
  assume "prefix p (x @ z)"
  then consider "prefix p x" | us where "p = x @ us" "prefix us z"
    by (auto simp: prefix_append)
  then show "prefix p x"
  proof cases
    case 1
    then show ?thesis .
  next
    case 2
    show ?thesis
    proof (cases us)
      case Nil
      with 2 show ?thesis by simp
    next
      case (Cons u us')
      with 2(2) assms(1) have "u = hd z"
        by (cases z) simp_all
      with Cons 2(1) assms(2) show ?thesis by simp
    qed
  qed
next
  assume "prefix p x"
  then show "prefix p (x @ z)" by (rule prefix_prefix)
qed

lemma prefix_append_last:
  assumes "x \<noteq> []" and "last x \<notin> set p"
  shows "prefix p (x @ z) \<longleftrightarrow> prefix p x"
proof
  assume "prefix p (x @ z)"
  then consider "prefix p x" | us where "p = x @ us"
    by (auto simp: prefix_append)
  then show "prefix p x"
  proof cases
    case 1
    then show ?thesis .
  next
    case 2
    with assms(1) have "last x \<in> set p" by simp
    with assms(2) show ?thesis by simp
  qed
next
  assume "prefix p x"
  then show "prefix p (x @ z)" by (rule prefix_prefix)
qed

lemma takeWhile_last:
  "x \<noteq> [] \<Longrightarrow> \<not> P (last x) \<Longrightarrow> takeWhile P (x @ z) = takeWhile P x"
  by (rule takeWhile_append1 [of "last x"]) simp_all

lemma dropWhile_last:
  assumes "x \<noteq> []" and "\<not> P (last x)"
  shows "dropWhile P (x @ z) = dropWhile P x @ z"
  using assms by (intro dropWhile_append1 [of "last x"]) simp_all

lemma dropWhile_last_ne:
  assumes "x \<noteq> []" and "\<not> P (last x)"
  shows "dropWhile P x \<noteq> []"
proof
  assume "dropWhile P x = []"
  then have "\<forall>c\<in>set x. P c" by (simp add: dropWhile_eq_Nil_conv)
  moreover from assms(1) have "last x \<in> set x" by simp
  ultimately show False using assms(2) by blast
qed

lemma dropWhile_last_eq:
  assumes "x \<noteq> []" and "\<not> P (last x)"
  shows "last (dropWhile P x) = last x"
proof -
  have "dropWhile P x \<noteq> []"
    using assms by (rule dropWhile_last_ne)
  then have "last (takeWhile P x @ dropWhile P x) = last (dropWhile P x)"
    by (rule last_appendR)
  then show ?thesis by simp
qed

lemma drop_prefix_last:
  assumes "prefix l x" and "x \<noteq> []" and "last x \<notin> set l"
  shows "drop (length l) x \<noteq> []" and "last (drop (length l) x) = last x"
proof -
  from assms(1) obtain r where x: "x = l @ r" by (auto simp: prefix_def)
  have "r \<noteq> []"
  proof
    assume "r = []"
    with x assms(2) have "last x \<in> set l" by simp
    with assms(3) show False by simp
  qed
  with x show "drop (length l) x \<noteq> []" and "last (drop (length l) x) = last x"
    by simp_all
qed

text \<open>
  A match of one of the two patterns is its header followed by \<open>match_tail\<close>. A
  match tried before a text that starts with \<open>fn\<close>, or on a text that ends with a
  closing brace, does not depend on what follows.
\<close>

lemma match_tail_pieces:
  "match_tail l s =
     (if prefix l (dropWhile is_space s)
      then (case dropWhile is_space (drop (length l) (dropWhile is_space s)) of
              [] \<Rightarrow> None
            | c # rest \<Rightarrow>
                if c = CHR ''}''
                then Some (takeWhile is_space s,
                       takeWhile is_space (drop (length l) (dropWhile is_space s)) @ ''}'',
                       length (takeWhile is_space s) + length l
                       + length (takeWhile is_space (drop (length l) (dropWhile is_space s))) + 1)
                else None)
      else None)"
  by (simp add: match_tail_def Let_def)

lemma case_head_append:
  "(x4 = [] \<Longrightarrow> z \<noteq> [] \<and> hd z \<noteq> CHR ''}'') \<Longrightarrow>
     (case x4 @ z of [] \<Rightarrow> None | c # rest \<Rightarrow> if c = CHR ''}'' then Some v else None)
     = (case x4 of [] \<Rightarrow> None | c # rest \<Rightarrow> if c = CHR ''}'' then Some v else None)"
  by (cases x4; cases z) simp_all

lemma case_head_append_ne:
  "x4 \<noteq> [] \<Longrightarrow>
     (case x4 @ z of [] \<Rightarrow> None | c # rest \<Rightarrow> if c = CHR ''}'' then Some v else None)
     = (case x4 of [] \<Rightarrow> None | c # rest \<Rightarrow> if c = CHR ''}'' then Some v else None)"
  by (cases x4) simp_all

lemma match_tail_before:
  assumes "z \<noteq> []" and "\<not> is_space (hd z)" and "hd z \<notin> set l" and "hd z \<noteq> CHR ''}''"
  shows "match_tail l (x @ z) = match_tail l x"
proof -
  let ?x2 = "dropWhile is_space x"
  let ?x3 = "drop (length l) ?x2"
  have tw1: "takeWhile is_space (x @ z) = takeWhile is_space x"
    using assms(1,2) by (rule takeWhile_stop)
  have dw1: "dropWhile is_space (x @ z) = ?x2 @ z"
    using assms(1,2) by (rule dropWhile_stop)
  have pl: "prefix l (?x2 @ z) \<longleftrightarrow> prefix l ?x2"
    using assms(1,3) by (rule prefix_append_foreign)
  show ?thesis
  proof (cases "prefix l ?x2")
    case False
    then show ?thesis
      unfolding match_tail_pieces dw1 pl by (simp only: if_False)
  next
    case True
    then have "length l \<le> length ?x2"
      by (rule prefix_length_le)
    then have d3: "drop (length l) (?x2 @ z) = ?x3 @ z"
      by simp
    have tw2: "takeWhile is_space (?x3 @ z) = takeWhile is_space ?x3"
      using assms(1,2) by (rule takeWhile_stop)
    have dw2: "dropWhile is_space (?x3 @ z) = dropWhile is_space ?x3 @ z"
      using assms(1,2) by (rule dropWhile_stop)
    have ch: "(case dropWhile is_space ?x3 @ z of [] \<Rightarrow> None
            | c # rest \<Rightarrow> if c = CHR ''}'' then Some v else None)
        = (case dropWhile is_space ?x3 of [] \<Rightarrow> None
            | c # rest \<Rightarrow> if c = CHR ''}'' then Some v else None)"
      for v :: "string \<times> string \<times> nat"
      by (rule case_head_append) (use assms(1,4) in simp)
    show ?thesis
      unfolding match_tail_pieces tw1 dw1 pl d3 tw2 dw2 ch ..
  qed
qed

lemma match_tail_after:
  assumes "x \<noteq> []" and "last x = CHR ''}''" and "CHR ''}'' \<notin> set l"
  shows "match_tail l (x @ z) = match_tail l x"
proof -
  let ?x2 = "dropWhile is_space x"
  let ?x3 = "drop (length l) ?x2"
  have ns: "\<not> is_space (last x)"
    using assms(2) by (simp add: is_space_def)
  have tw1: "takeWhile is_space (x @ z) = takeWhile is_space x"
    using assms(1) ns by (rule takeWhile_last)
  have dw1: "dropWhile is_space (x @ z) = ?x2 @ z"
    using assms(1) ns by (rule dropWhile_last)
  have ne2: "?x2 \<noteq> []"
    using assms(1) ns by (rule dropWhile_last_ne)
  have l2: "last ?x2 = CHR ''}''"
    using dropWhile_last_eq [of x is_space] assms(1,2) ns by simp
  with assms(3) have nl: "last ?x2 \<notin> set l"
    by simp
  have pl: "prefix l (?x2 @ z) \<longleftrightarrow> prefix l ?x2"
    using ne2 nl by (rule prefix_append_last)
  show ?thesis
  proof (cases "prefix l ?x2")
    case False
    then show ?thesis
      unfolding match_tail_pieces dw1 pl by (simp only: if_False)
  next
    case True
    then have "length l \<le> length ?x2"
      by (rule prefix_length_le)
    then have d3: "drop (length l) (?x2 @ z) = ?x3 @ z"
      by simp
    from drop_prefix_last [OF True ne2 nl] l2
    have ne3: "?x3 \<noteq> []" and l3: "last ?x3 = CHR ''}''"
      by simp_all
    then have ns3: "\<not> is_space (last ?x3)"
      by (simp add: is_space_def)
    have tw2: "takeWhile is_space (?x3 @ z) = takeWhile is_space ?x3"
      using ne3 ns3 by (rule takeWhile_last)
    have dw2: "dropWhile is_space (?x3 @ z) = dropWhile is_space ?x3 @ z"
      using ne3 ns3 by (rule dropWhile_last)
    have ne4: "dropWhile is_space ?x3 \<noteq> []"
      using ne3 ns3 by (rule dropWhile_last_ne)
    have ch: "(case dropWhile is_space ?x3 @ z of [] \<Rightarrow> None
            | c # rest \<Rightarrow> if c = CHR ''}'' then Some v else None)
        = (case dropWhile is_space ?x3 of [] \<Rightarrow> None
            | c # rest \<Rightarrow> if c = CHR ''}'' then Some v else None)"
      for v :: "string \<times> string \<times> nat"
      using ne4 by (rule case_head_append_ne)
    show ?thesis
      unfolding match_tail_pieces tw1 dw1 pl d3 tw2 dw2 ch ..
  qed
qed

lemma match_fn_pieces:
  "match_fn h l s =
     (if prefix h s then
        if prefix l (dropWhile is_space (drop (length h) s))
        then (case dropWhile is_space
                     (drop (length l) (dropWhile is_space (drop (length h) s))) of
                [] \<Rightarrow> None
              | c # rest \<Rightarrow>
                  if c = CHR ''}''
                  then Some (h @ takeWhile is_space (drop (length h) s),
                         takeWhile is_space
                           (drop (length l) (dropWhile is_space (drop (length h) s))) @ ''}'',
                         length h + length (takeWhile is_space (drop (length h) s)) + length l
                         + length (takeWhile is_space
                             (drop (length l) (dropWhile is_space (drop (length h) s)))) + 1)
                  else None)
        else None
      else None)"
  unfolding match_fn_def Let_def by (rule refl)

lemma match_shape:
  "(if A then
      if B then (case L of [] \<Rightarrow> None
                 | c # rest \<Rightarrow>
                     if c = k then Some (h @ W1, W2, hn + n1 + n2 + n3 + (1::nat)) else None)
      else None
    else None)
   = (if A
      then map_option (\<lambda>(g1, g2, n). (h @ g1, g2, hn + n))
             (if B then (case L of [] \<Rightarrow> None
                         | c # rest \<Rightarrow>
                             if c = k then Some (W1, W2, n1 + n2 + n3 + 1) else None)
              else None)
      else None)"
  by (cases L) simp_all

lemma match_fn_tail:
  "match_fn h l s =
     (if prefix h s
      then map_option (\<lambda>(g1, g2, n). (h @ g1, g2, length h + n)) (match_tail l (drop (length h) s))
      else None)"
  unfolding match_fn_pieces match_tail_pieces by (rule match_shape)

lemma literal_match_safe:
  assumes "p \<noteq> []" and "CHR ''f'' \<notin> set p" and "CHR ''}'' \<notin> set p"
  shows "boundary_safe (literal_match p new)"
  unfolding boundary_safe_def
proof (intro conjI allI impI)
  from assms(1) show "literal_match p new [] = None"
    by (simp add: literal_match_def)
next
  fix y out n assume "literal_match p new y = Some (out, n)"
  then have "prefix p y" and "n = length p"
    by (auto simp: literal_match_def split: if_splits)
  with assms(1) show "0 < n" and "n \<le> length y"
    by (simp_all add: prefix_length_le)
next
  fix y b :: string assume "y \<noteq> []"
  have "prefix p (y @ ''fn'' @ b) \<longleftrightarrow> prefix p y"
    by (rule prefix_append_foreign) (use assms(2) in simp_all)
  then show "literal_match p new (y @ ''fn'' @ b) = literal_match p new y"
    by (simp only: literal_match_def)
next
  fix y b :: string assume "y \<noteq> [] \<and> last y = CHR ''}''"
  with assms(3) have "prefix p (y @ b) \<longleftrightarrow> prefix p y"
    by (intro prefix_append_last) simp_all
  then show "literal_match p new (y @ b) = literal_match p new y"
    by (simp only: literal_match_def)
qed

lemma length_takeWhile_dropWhile:
  "length (takeWhile P s) + length (dropWhile P s) = length s"
proof -
  have "length (takeWhile P s @ dropWhile P s) = length s"
    by (simp only: takeWhile_dropWhile_id)
  then show ?thesis
    by (simp only: length_append)
qed

lemma match_tail_length:
  assumes "match_tail l s = Some (g1, g2, n)"
  shows "0 < n \<and> n \<le> length s"
proof -
  let ?s2 = "dropWhile is_space s"
  let ?s3 = "drop (length l) ?s2"
  have p: "prefix l ?s2"
  proof (rule ccontr)
    assume "\<not> prefix l ?s2"
    then have "match_tail l s = None"
      unfolding match_tail_pieces by (simp only: if_False)
    with assms show False by simp
  qed
  then have eq: "match_tail l s =
      (case dropWhile is_space ?s3 of [] \<Rightarrow> None
       | c # rest \<Rightarrow> if c = CHR ''}''
           then Some (takeWhile is_space s, takeWhile is_space ?s3 @ ''}'',
                  length (takeWhile is_space s) + length l + length (takeWhile is_space ?s3) + 1)
           else None)"
    unfolding match_tail_pieces by (simp only: if_True)
  obtain c rest where s4: "dropWhile is_space ?s3 = c # rest"
    using assms unfolding eq by (cases "dropWhile is_space ?s3") simp_all
  from assms have n: "n = length (takeWhile is_space s) + length l + length (takeWhile is_space ?s3) + 1"
    unfolding eq s4 by (cases "c = CHR ''}''") auto
  have a: "length s = length (takeWhile is_space s) + length ?s2"
    by (rule length_takeWhile_dropWhile [symmetric])
  from p obtain r where "?s2 = l @ r" by (auto simp: prefix_def)
  then have b: "length ?s2 = length l + length ?s3"
    by simp
  have c: "length ?s3 = length (takeWhile is_space ?s3) + length (dropWhile is_space ?s3)"
    by (rule length_takeWhile_dropWhile [symmetric])
  have d: "length (dropWhile is_space ?s3) = Suc (length rest)"
    by (simp only: s4 list.size(4))
  from a b c d n show ?thesis
    by linarith
qed

lemma match_fn_length:
  assumes "match_fn h l y = Some (g1, g2, n)"
  shows "0 < n \<and> n \<le> length y"
proof -
  have p: "prefix h y"
  proof (rule ccontr)
    assume "\<not> prefix h y"
    then have "match_fn h l y = None"
      unfolding match_fn_tail by (simp only: if_False)
    with assms show False by simp
  qed
  then have eq: "match_fn h l y =
      map_option (\<lambda>(g1, g2, n). (h @ g1, g2, length h + n)) (match_tail l (drop (length h) y))"
    unfolding match_fn_tail by (simp only: if_True)
  from assms obtain t1 t2 k where t: "match_tail l (drop (length h) y) = Some (t1, t2, k)"
    and n: "n = length h + k"
    unfolding eq by (cases "match_tail l (drop (length h) y)") auto
  from match_tail_length [OF t] have k: "0 < k" "k \<le> length (drop (length h) y)"
    by simp_all
  from p obtain r where "y = h @ r" by (auto simp: prefix_def)
  then have "length y = length h + length (drop (length h) y)"
    by simp
  with k n show ?thesis
    by linarith
qed

lemma prefix_take2:
  assumes "prefix us (''fn'' @ b)"
  shows "prefix (take 2 us) ''fn''"
proof (cases us)
  case Nil
  then show ?thesis by simp
next
  case outer: (Cons u r)
  show ?thesis
  proof (cases r)
    case Nil
    with outer assms show ?thesis by simp
  next
    case (Cons v r')
    with outer assms show ?thesis by simp
  qed
qed

lemma match_fn_before:
  assumes h: "CHR ''}'' \<notin> set h"
    and l: "CHR ''f'' \<notin> set l"
    and straddle: "\<And>k. 0 < k \<Longrightarrow> k < length h \<Longrightarrow> \<not> prefix (take 2 (drop k h)) ''fn''"
    and y: "y \<noteq> []"
  shows "match_fn h l (y @ ''fn'' @ b) = match_fn h l y"
proof -
  let ?z = "''fn'' @ b"
  have ph: "prefix h (y @ ?z) \<longleftrightarrow> prefix h y"
  proof
    assume "prefix h (y @ ?z)"
    then consider "prefix h y" | us where "h = y @ us" "prefix us ?z"
      unfolding prefix_append by blast
    then show "prefix h y"
    proof cases
      case 1
      then show ?thesis .
    next
      case 2
      show ?thesis
      proof (cases "us = []")
        case True
        with 2(1) show ?thesis by simp
      next
        case False
        with 2(1) y have k: "0 < length y" "length y < length h" and d: "drop (length y) h = us"
          by simp_all
        from 2(2) have "prefix (take 2 us) ''fn''"
          by (rule prefix_take2)
        with straddle [OF k] d show ?thesis by simp
      qed
    qed
  next
    assume "prefix h y"
    then show "prefix h (y @ ?z)" by (rule prefix_prefix)
  qed
  show ?thesis
  proof (cases "prefix h y")
    case False
    with ph show ?thesis
      unfolding match_fn_tail by (simp only: if_False)
  next
    case True
    then have "length h \<le> length y"
      by (rule prefix_length_le)
    then have d: "drop (length h) (y @ ?z) = drop (length h) y @ ?z"
      by simp
    have t: "match_tail l (drop (length h) y @ ?z) = match_tail l (drop (length h) y)"
      by (rule match_tail_before) (use l in \<open>simp_all add: is_space_def\<close>)
    from True ph show ?thesis
      unfolding match_fn_tail d t by (simp only: if_True)
  qed
qed

lemma match_fn_after:
  assumes h: "CHR ''}'' \<notin> set h" and l: "CHR ''}'' \<notin> set l"
    and y: "y \<noteq> []" "last y = CHR ''}''"
  shows "match_fn h l (y @ z) = match_fn h l y"
proof -
  from y h have nl: "last y \<notin> set h"
    by simp
  have ph: "prefix h (y @ z) \<longleftrightarrow> prefix h y"
    using y(1) nl by (rule prefix_append_last)
  show ?thesis
  proof (cases "prefix h y")
    case False
    with ph show ?thesis
      unfolding match_fn_tail by (simp only: if_False)
  next
    case True
    then have "length h \<le> length y"
      by (rule prefix_length_le)
    then have d: "drop (length h) (y @ z) = drop (length h) y @ z"
      by simp
    from drop_prefix_last [OF True y(1) nl] y(2)
    have ne: "drop (length h) y \<noteq> []" and la: "last (drop (length h) y) = CHR ''}''"
      by simp_all
    have t: "match_tail l (drop (length h) y @ z) = match_tail l (drop (length h) y)"
      using ne la l by (rule match_tail_after)
    from True ph show ?thesis
      unfolding match_fn_tail d t by (simp only: if_True)
  qed
qed

lemma fn_matcher_safe:
  assumes "h \<noteq> []" and "CHR ''}'' \<notin> set h" and "CHR ''f'' \<notin> set l" and "CHR ''}'' \<notin> set l"
    and "\<And>k. 0 < k \<Longrightarrow> k < length h \<Longrightarrow> \<not> prefix (take 2 (drop k h)) ''fn''"
  shows "boundary_safe (fn_matcher h l repl)"
  unfolding boundary_safe_def
proof (intro conjI allI impI)
  from assms(1) have "match_fn h l [] = None"
    unfolding match_fn_tail by simp
  then show "fn_matcher h l repl [] = None"
    by (simp add: fn_matcher_def)
next
  fix y out n assume m: "fn_matcher h l repl y = Some (out, n)"
  then obtain g1 g2 where "match_fn h l y = Some (g1, g2, n)"
    unfolding fn_matcher_def by (cases "match_fn h l y") auto
  then have "0 < n \<and> n \<le> length y"
    by (rule match_fn_length)
  then show "0 < n" and "n \<le> length y"
    by simp_all
next
  fix y b :: string assume "y \<noteq> []"
  with assms(2,3,5) have "match_fn h l (y @ ''fn'' @ b) = match_fn h l y"
    by (intro match_fn_before) 
  then show "fn_matcher h l repl (y @ ''fn'' @ b) = fn_matcher h l repl y"
    by (simp only: fn_matcher_def)
next
  fix y b :: string assume "y \<noteq> [] \<and> last y = CHR ''}''"
  with assms(2,4) have "match_fn h l (y @ b) = match_fn h l y"
    by (intro match_fn_after) simp_all
  then show "fn_matcher h l repl (y @ b) = fn_matcher h l repl y"
    by (simp only: fn_matcher_def)
qed

text \<open>
  So every pass handles a text that starts with \<open>fn\<close> and ends with a closing brace
  on its own, whatever stands before and behind it.
\<close>

lemma sub_scan_before_fn:
  assumes "boundary_safe m"
  shows "sub_scan m (a @ ''fn'' @ b) = sub_scan m a @ sub_scan m (''fn'' @ b)"
proof (rule sub_scan_append)
  fix x y :: string assume "y \<noteq> []"
  with assms show "m (y @ ''fn'' @ b) = m y"
    unfolding boundary_safe_def by blast
next
  fix y out n assume "m y = Some (out, n)"
  with assms show "0 < n \<and> n \<le> length y"
    unfolding boundary_safe_def by blast
next
  from assms show "m [] = None"
    unfolding boundary_safe_def by blast
qed

lemma sub_scan_after_brace:
  assumes "boundary_safe m" and "a \<noteq> []" and "last a = CHR ''}''"
  shows "sub_scan m (a @ b) = sub_scan m a @ sub_scan m b"
proof (rule sub_scan_append)
  fix x y :: string assume "y \<noteq> []" and "a = x @ y"
  then have "last y = CHR ''}''"
    using assms(3) by simp
  with assms(1) \<open>y \<noteq> []\<close> show "m (y @ b) = m y"
    unfolding boundary_safe_def by blast
next
  fix y out n assume "m y = Some (out, n)"
  with assms(1) show "0 < n \<and> n \<le> length y"
    unfolding boundary_safe_def by blast
next
  from assms(1) show "m [] = None"
    unfolding boundary_safe_def by blast
qed

lemma sub_scan_block:
  assumes m: "boundary_safe m" and fn: "prefix ''fn'' block" and brace: "last block = CHR ''}''"
  shows "sub_scan m (pre @ block @ post) = sub_scan m pre @ sub_scan m block @ sub_scan m post"
proof -
  from fn obtain b where b: "block = ''fn'' @ b"
    unfolding prefix_def by blast
  then have ne: "block \<noteq> []"
    by simp
  have "sub_scan m (pre @ block @ post) = sub_scan m (pre @ ''fn'' @ (b @ post))"
    by (simp add: b)
  also have "\<dots> = sub_scan m pre @ sub_scan m (''fn'' @ (b @ post))"
    using m by (rule sub_scan_before_fn)
  also have "''fn'' @ (b @ post) = block @ post"
    by (simp add: b)
  also have "sub_scan m (block @ post) = sub_scan m block @ sub_scan m post"
    using m ne brace by (rule sub_scan_after_brace)
  finally show ?thesis .
qed

text \<open>
  Scans that find nothing in a stretch of text, and a scan whose one match is the
  whole text.
\<close>

lemma sub_scan_skip:
  assumes "\<And>x y. a = x @ y \<Longrightarrow> y \<noteq> [] \<Longrightarrow> m (y @ b) = None"
  shows "sub_scan m (a @ b) = a @ sub_scan m b"
  using assms
proof (induction a)
  case Nil
  then show ?case by simp
next
  case (Cons c a)
  from Cons.prems [of "[]" "c # a"] have here: "m (c # a @ b) = None"
    by simp
  have "sub_scan m (a @ b) = a @ sub_scan m b"
  proof (rule Cons.IH)
    fix x y assume "a = x @ y" and "y \<noteq> []"
    then show "m (y @ b) = None"
      using Cons.prems [of "c # x" y] by simp
  qed
  with here show ?case
    by simp
qed

lemma sub_scan_whole:
  assumes "s \<noteq> []" and "m s = Some (out, length s)" and "m [] = None"
  shows "sub_scan m s = out"
  using assms by (cases s) simp_all

lemma prefix_drop_set:
  "prefix p (drop i s) \<Longrightarrow> set p \<subseteq> set s"
proof -
  assume "prefix p (drop i s)"
  then have "set p \<subseteq> set (drop i s)"
    by (rule set_mono_prefix)
  also have "\<dots> \<subseteq> set s"
    by (rule set_drop_subset)
  finally show ?thesis .
qed

lemma str_replace_foreign:
  assumes "c \<in> set old" and "c \<notin> set s"
  shows "str_replace old new s = s"
  unfolding str_replace_def
proof (rule sub_scan_no_match)
  fix i
  from assms prefix_drop_set [of old i s] have "\<not> prefix old (drop i s)"
    by blast
  then show "literal_match old new (drop i s) = None"
    by (simp add: literal_match_def)
qed

lemma re_sub_fn_foreign:
  assumes "c \<in> set h" and "c \<notin> set s"
  shows "re_sub_fn h l repl s = s"
  unfolding re_sub_fn_def
proof (rule sub_scan_no_match)
  fix i
  from assms prefix_drop_set [of h i s] have "\<not> prefix h (drop i s)"
    by blast
  then have "match_fn h l (drop i s) = None"
    unfolding match_fn_tail by (simp only: if_False)
  then show "fn_matcher h l repl (drop i s) = None"
    by (simp add: fn_matcher_def)
qed

lemma no_later_match:
  assumes "h \<noteq> []" and "last h \<notin> set rest" and "0 < i"
  shows "\<not> prefix h (drop i (h @ rest))"
proof
  assume "prefix h (drop i (h @ rest))"
  then obtain z where z: "drop i (h @ rest) = h @ z"
    unfolding prefix_def by blast
  have "drop (length h - 1) (drop i (h @ rest)) = drop (length h - 1) h @ z"
    unfolding z by simp
  moreover have "drop (length h - 1) h = [last h]"
  proof -
    from assms(1) have "h = butlast h @ [last h]"
      by simp
    then have "drop (length h - 1) h = drop (length (butlast h)) (butlast h @ [last h])"
      by simp
    then show ?thesis
      by simp
  qed
  moreover have "drop (length h - 1) (drop i (h @ rest)) = drop (i - 1) rest"
  proof -
    from assms(1) have "0 < length h"
      by simp
    with assms(3) have e: "length h - 1 + i = length h + (i - 1)"
      by linarith
    have "drop (length h - 1) (drop i (h @ rest)) = drop (length h - 1 + i) (h @ rest)"
      by (simp only: drop_drop)
    also have "\<dots> = drop (length h + (i - 1)) (h @ rest)"
      by (simp only: e)
    also have "\<dots> = drop (i - 1) rest"
      by simp
    finally show ?thesis .
  qed
  ultimately have "drop (i - 1) rest = last h # z"
    by simp
  then have "last h \<in> set (drop (i - 1) rest)"
    by simp
  then have "last h \<in> set rest"
    by (rule in_set_dropD)
  with assms(2) show False
    by contradiction
qed

text \<open>
  The two patterns on a function whose body is one value between white space: the
  pattern of the function matches all of it when the value is the literal, and
  nothing when the value is another number.
\<close>

lemma spaces_then:
  assumes "list_all is_space ws" and "z \<noteq> []" and "\<not> is_space (hd z)"
  shows "takeWhile is_space (ws @ z) = ws" and "dropWhile is_space (ws @ z) = z"
proof -
  from assms(1) have all: "\<And>x. x \<in> set ws \<Longrightarrow> is_space x"
    by (simp add: list_all_iff)
  from assms(2,3) have t: "takeWhile is_space z = []" and d: "dropWhile is_space z = z"
    by (cases z; simp)+
  from takeWhile_append2 [of ws is_space z] all t show "takeWhile is_space (ws @ z) = ws"
    by simp
  from dropWhile_append2 [of ws is_space z] all d show "dropWhile is_space (ws @ z) = z"
    by simp
qed

lemma match_tail_block:
  assumes ws1: "list_all is_space ws1" and ws2: "list_all is_space ws2"
    and l: "l \<noteq> []" "\<not> is_space (hd l)"
  shows "match_tail l (ws1 @ l @ ws2 @ ''}'') =
     Some (ws1, ws2 @ ''}'', length ws1 + length l + length ws2 + 1)"
proof -
  from l have z: "l @ ws2 @ ''}'' \<noteq> []" "\<not> is_space (hd (l @ ws2 @ ''}''))"
    by simp_all
  have b: "''}'' \<noteq> []" "\<not> is_space (hd ''}'')"
    by (simp_all add: is_space_def)
  note a1 = spaces_then [OF ws1 z]
  note a2 = spaces_then [OF ws2 b]
  show ?thesis
    unfolding match_tail_def Let_def a1 by (simp add: a2)
qed

lemma match_fn_block:
  assumes "list_all is_space ws1" and "list_all is_space ws2" and "l \<noteq> []" "\<not> is_space (hd l)"
  shows "match_fn h l (fn_block h ws1 l ws2) =
     Some (h @ ws1, ws2 @ ''}'', length (fn_block h ws1 l ws2))"
  unfolding match_fn_tail fn_block_def
  by (simp add: match_tail_block [OF assms])

lemma fn_matcher_empty: "h \<noteq> [] \<Longrightarrow> fn_matcher h l repl [] = None"
  unfolding fn_matcher_def match_fn_tail by simp

lemma re_sub_fn_block:
  assumes "list_all is_space ws1" and "list_all is_space ws2" and "l \<noteq> []" "\<not> is_space (hd l)"
    and h: "h \<noteq> []"
  shows "re_sub_fn h l repl (fn_block h ws1 l ws2) = fn_block h ws1 repl ws2"
  unfolding re_sub_fn_def
proof (rule sub_scan_whole)
  from h show "fn_block h ws1 l ws2 \<noteq> []"
    by (simp add: fn_block_def)
  show "fn_matcher h l repl (fn_block h ws1 l ws2) =
      Some (fn_block h ws1 repl ws2, length (fn_block h ws1 l ws2))"
    unfolding fn_matcher_def match_fn_block [OF assms(1-4)]
    by (simp add: fn_block_def)
  from h show "fn_matcher h l repl [] = None"
    by (rule fn_matcher_empty)
qed

lemma match_tail_other:
  assumes ws1: "list_all is_space ws1"
    and v: "v \<noteq> []" "\<not> is_space (hd v)"
    and other: "hd v = CHR ''1'' \<Longrightarrow> tl v \<noteq> [] \<and> \<not> is_space (hd (tl v)) \<and> hd (tl v) \<noteq> CHR ''}''"
  shows "match_tail ''1'' (ws1 @ v @ r) = None"
proof -
  from v have z: "v @ r \<noteq> []" "\<not> is_space (hd (v @ r))"
    by simp_all
  note a1 = spaces_then [OF ws1 z]
  from v(1) obtain c vs where cv: "v = c # vs"
    by (cases v) auto
  show ?thesis
  proof (cases "c = CHR ''1''")
    case False
    then show ?thesis
      unfolding match_tail_def Let_def a1 by (simp add: cv)
  next
    case True
    with other cv obtain c2 vs2 where vs: "vs = c2 # vs2" and c2: "\<not> is_space c2" "c2 \<noteq> CHR ''}''"
      by (cases vs) auto
    from c2(1) have t: "takeWhile is_space (c2 # vs2 @ r) = []"
      and d: "dropWhile is_space (c2 # vs2 @ r) = c2 # vs2 @ r"
      by simp_all
    show ?thesis
      unfolding match_tail_def Let_def a1 using c2 by (simp add: cv vs True)
  qed
qed

lemma re_sub_fn_block_other:
  assumes ws1: "list_all is_space ws1"
    and h: "h \<noteq> []" "last h \<notin> set (ws1 @ v @ ws2 @ ''}'')"
    and v: "v \<noteq> []" "\<not> is_space (hd v)"
    and other: "hd v = CHR ''1'' \<Longrightarrow> tl v \<noteq> [] \<and> \<not> is_space (hd (tl v)) \<and> hd (tl v) \<noteq> CHR ''}''"
  shows "re_sub_fn h ''1'' repl (fn_block h ws1 v ws2) = fn_block h ws1 v ws2"
  unfolding re_sub_fn_def
proof (rule sub_scan_no_match)
  fix i
  show "fn_matcher h ''1'' repl (drop i (fn_block h ws1 v ws2)) = None"
  proof (cases "i = 0")
    case True
    have "match_tail ''1'' (ws1 @ v @ ws2 @ ''}'') = None"
      using ws1 v other by (rule match_tail_other)
    then have "match_fn h ''1'' (fn_block h ws1 v ws2) = None"
      unfolding match_fn_tail fn_block_def by simp
    with True show ?thesis
      by (simp add: fn_matcher_def)
  next
    case False
    then have "0 < i"
      by simp
    with h have "\<not> prefix h (drop i (h @ (ws1 @ v @ ws2 @ ''}'')))"
      by (rule no_later_match)
    then have "match_fn h ''1'' (drop i (fn_block h ws1 v ws2)) = None"
      unfolding match_fn_tail fn_block_def by (simp only: if_False)
    then show ?thesis
      by (simp add: fn_matcher_def)
  qed
qed

text \<open>
  The replacement of \<^verbatim>\<open>"  1"\<close> on a text whose only \<open>1\<close> is the value: it is
  replaced when two spaces stand before it.
\<close>

lemma two_spaces_one_ahead:
  assumes "CHR ''1'' \<notin> set y" and "y \<noteq> []"
  shows "\<not> prefix ''  1'' (y @ ''  1'' @ r)"
proof (cases y)
  case Nil
  with assms(2) show ?thesis by simp
next
  case y1: (Cons c y1)
  show ?thesis
  proof (cases y1)
    case Nil
    with y1 show ?thesis by simp
  next
    case y2: (Cons d y2)
    show ?thesis
    proof (cases y2)
      case Nil
      with y1 y2 show ?thesis by simp
    next
      case (Cons e y3)
      with y1 y2 assms(1) show ?thesis by auto
    qed
  qed
qed

lemma two_spaces_one_short:
  assumes "CHR ''1'' \<notin> set y" and "y \<noteq> []" and "y \<noteq> ''  ''"
  shows "\<not> prefix ''  1'' (y @ ''1'' @ r)"
proof (cases y)
  case Nil
  with assms(2) show ?thesis by simp
next
  case y1: (Cons c y1)
  show ?thesis
  proof (cases y1)
    case Nil
    with y1 show ?thesis by simp
  next
    case y2: (Cons d y2)
    show ?thesis
    proof (cases y2)
      case Nil
      with y1 y2 assms(3) show ?thesis by auto
    next
      case (Cons e y3)
      with y1 y2 assms(1) show ?thesis by auto
    qed
  qed
qed

lemma two_spaces_one_block:
  assumes a: "CHR ''1'' \<notin> set a" and r: "CHR ''1'' \<notin> set r"
  shows "str_replace ''  1'' (''  '' @ new) (a @ ''1'' @ r) =
     a @ (if suffix ''  '' a then new else ''1'') @ r"
proof -
  let ?m = "literal_match ''  1'' (''  '' @ new)"
  have rest: "sub_scan ?m r = r"
    using str_replace_foreign [of "CHR ''1''" "''  1''" r "''  '' @ new"] r
    by (simp add: str_replace_def)
  show ?thesis
  proof (cases "suffix ''  '' a")
    case True
    then obtain u where u: "a = u @ ''  ''"
      unfolding suffix_def by blast
    with a have nu: "CHR ''1'' \<notin> set u"
      by simp
    have skip: "sub_scan ?m (u @ (''  1'' @ r)) = u @ sub_scan ?m (''  1'' @ r)"
    proof (rule sub_scan_skip)
      fix x y assume "u = x @ y" and ne: "y \<noteq> []"
      with nu have "CHR ''1'' \<notin> set y"
        by simp
      from this ne have "\<not> prefix ''  1'' (y @ ''  1'' @ r)"
        by (rule two_spaces_one_ahead)
      then show "?m (y @ ''  1'' @ r) = None"
        by (simp add: literal_match_def)
    qed
    have hit: "sub_scan ?m (''  1'' @ r) = ''  '' @ new @ sub_scan ?m r"
      by (simp add: literal_match_def)
    have "a @ ''1'' @ r = u @ (''  1'' @ r)"
      by (simp add: u)
    then have "str_replace ''  1'' (''  '' @ new) (a @ ''1'' @ r) = u @ ''  '' @ new @ r"
      unfolding str_replace_def by (simp only: skip hit rest)
    with True show ?thesis
      by (simp add: u)
  next
    case False
    have skip: "sub_scan ?m (a @ (''1'' @ r)) = a @ sub_scan ?m (''1'' @ r)"
    proof (rule sub_scan_skip)
      fix x y assume xy: "a = x @ y" and ne: "y \<noteq> []"
      with a have n1: "CHR ''1'' \<notin> set y"
        by simp
      from xy False have "y \<noteq> ''  ''"
        unfolding suffix_def by blast
      with n1 ne have "\<not> prefix ''  1'' (y @ ''1'' @ r)"
        by (rule two_spaces_one_short)
      then show "?m (y @ ''1'' @ r) = None"
        by (simp add: literal_match_def)
    qed
    have miss: "sub_scan ?m (''1'' @ r) = ''1'' @ sub_scan ?m r"
      by (simp add: literal_match_def)
    have "str_replace ''  1'' (''  '' @ new) (a @ ''1'' @ r) = a @ ''1'' @ r"
      unfolding str_replace_def by (simp only: skip miss rest)
    with False show ?thesis
      by simp
  qed
qed

text \<open>
  The numbers of the days 2 to 25, the characters of the two headers, and the four
  matchers.
\<close>

lemma day_strings_checked:
  "list_all (\<lambda>v. v \<noteq> [] \<and> \<not> is_space (hd v)
      \<and> (hd v = CHR ''1'' \<longrightarrow>
            tl v \<noteq> [] \<and> \<not> is_space (hd (tl v)) \<and> hd (tl v) \<noteq> CHR ''}'')
      \<and> CHR ''{'' \<notin> set v \<and> CHR ''m'' \<notin> set v)
     (map str_int [2..25])"
  by code_simp

lemma day_string_props:
  assumes "2 \<le> day" and "day \<le> 25"
  shows "str_int day \<noteq> []" and "\<not> is_space (hd (str_int day))"
    and "hd (str_int day) = CHR ''1'' \<Longrightarrow>
      tl (str_int day) \<noteq> [] \<and> \<not> is_space (hd (tl (str_int day)))
      \<and> hd (tl (str_int day)) \<noteq> CHR ''}''"
    and "CHR ''{'' \<notin> set (str_int day)" and "CHR ''m'' \<notin> set (str_int day)"
proof -
  define days :: "int list" where "days = [2..25]"
  from assms have "day \<in> set days"
    unfolding days_def set_upto by simp
  then have "str_int day \<in> set (map str_int days)"
    by (simp only: set_map) (rule imageI)
  with day_strings_checked
  have v: "str_int day \<noteq> [] \<and> \<not> is_space (hd (str_int day))
      \<and> (hd (str_int day) = CHR ''1'' \<longrightarrow>
            tl (str_int day) \<noteq> [] \<and> \<not> is_space (hd (tl (str_int day)))
            \<and> hd (tl (str_int day)) \<noteq> CHR ''}'')
      \<and> CHR ''{'' \<notin> set (str_int day) \<and> CHR ''m'' \<notin> set (str_int day)"
    unfolding days_def [symmetric] list_all_iff by blast
  from v show "str_int day \<noteq> []" by blast
  from v show "\<not> is_space (hd (str_int day))" by blast
  from v show "CHR ''{'' \<notin> set (str_int day)" by blast
  from v show "CHR ''m'' \<notin> set (str_int day)" by blast
  assume "hd (str_int day) = CHR ''1''"
  with v show "tl (str_int day) \<noteq> [] \<and> \<not> is_space (hd (tl (str_int day)))
      \<and> hd (tl (str_int day)) \<noteq> CHR ''}''"
    by blast
qed

lemma space_free: "list_all is_space ws \<Longrightarrow> \<not> is_space c \<Longrightarrow> c \<notin> set ws"
  by (auto simp: list_all_iff)

lemma fn_block_free:
  assumes "list_all is_space ws1" and "list_all is_space ws2" and "\<not> is_space c"
    and "c \<notin> set h" and "c \<notin> set v" and "c \<noteq> CHR ''}''"
  shows "c \<notin> set (fn_block h ws1 v ws2)"
  using assms space_free [of ws1 c] space_free [of ws2 c]
  by (simp add: fn_block_def)

lemma header_facts:
  "day_header \<noteq> []" "implemented_header \<noteq> []"
  "prefix ''fn'' day_header" "prefix ''fn'' implemented_header"
  "last day_header = CHR ''{''" "last implemented_header = CHR ''{''"
  "CHR ''}'' \<notin> set day_header" "CHR ''}'' \<notin> set implemented_header"
  "CHR ''1'' \<notin> set day_header" "CHR ''1'' \<notin> set implemented_header"
  "CHR ''D'' \<notin> set day_header" "CHR ''D'' \<notin> set implemented_header"
  "CHR ''m'' \<notin> set day_header" "CHR ''m'' \<in> set implemented_header"
  "CHR ''y'' \<in> set day_header" "CHR ''y'' \<notin> set implemented_header"
  by (simp_all add: day_header_def implemented_header_def)

lemma header_straddle:
  "0 < k \<Longrightarrow> k < length day_header \<Longrightarrow> \<not> prefix (take 2 (drop k day_header)) ''fn''"
  "0 < k \<Longrightarrow> k < length implemented_header \<Longrightarrow>
     \<not> prefix (take 2 (drop k implemented_header)) ''fn''"
proof -
  have d: "list_all (\<lambda>k. \<not> prefix (take 2 (drop k day_header)) ''fn'') [1..<length day_header]"
    by code_simp
  have i: "list_all (\<lambda>k. \<not> prefix (take 2 (drop k implemented_header)) ''fn'')
      [1..<length implemented_header]"
    by code_simp
  show "0 < k \<Longrightarrow> k < length day_header \<Longrightarrow> \<not> prefix (take 2 (drop k day_header)) ''fn''"
    using d unfolding list_all_iff by simp
  show "0 < k \<Longrightarrow> k < length implemented_header \<Longrightarrow>
     \<not> prefix (take 2 (drop k implemented_header)) ''fn''"
    using i unfolding list_all_iff by simp
qed

lemma passes_safe:
  "boundary_safe (literal_match ''Day01'' new1)"
  "boundary_safe (literal_match ''  1'' new2)"
  "boundary_safe (fn_matcher day_header ''1'' repl3)"
  "boundary_safe (fn_matcher implemented_header ''true'' repl4)"
proof -
  show "boundary_safe (literal_match ''Day01'' new1)"
    by (rule literal_match_safe) simp_all
  show "boundary_safe (literal_match ''  1'' new2)"
    by (rule literal_match_safe) simp_all
  show "boundary_safe (fn_matcher day_header ''1'' repl3)"
    by (rule fn_matcher_safe) (simp_all add: header_facts header_straddle)
  show "boundary_safe (fn_matcher implemented_header ''true'' repl4)"
    by (rule fn_matcher_safe) (simp_all add: header_facts header_straddle)
qed

lemma pass_block:
  assumes m: "boundary_safe m" and h: "prefix ''fn'' h"
    and block: "sub_scan m (fn_block h ws1 v ws2) = fn_block h ws1 v' ws2"
  shows "sub_scan m (pre @ fn_block h ws1 v ws2 @ post) =
     sub_scan m pre @ fn_block h ws1 v' ws2 @ sub_scan m post"
proof -
  from h have "prefix ''fn'' (h @ (ws1 @ v @ ws2 @ ''}''))"
    by (rule prefix_prefix)
  then have fn: "prefix ''fn'' (fn_block h ws1 v ws2)"
    by (simp only: fn_block_def)
  have brace: "last (fn_block h ws1 v ws2) = CHR ''}''"
    by (simp add: fn_block_def)
  from sub_scan_block [OF m fn brace] block show ?thesis
    by simp
qed

text \<open>
  The four passes on the two functions of the template. The day number is written by
  the second pass when the value is indented by two spaces or more, and by the third
  otherwise.
\<close>

lemma space_chars:
  "\<not> is_space CHR ''D''" "\<not> is_space CHR ''1''" "\<not> is_space CHR ''m''" "\<not> is_space CHR ''y''"
  "\<not> is_space CHR ''{''" "\<not> is_space CHR ''t''"
  by (simp_all add: is_space_def)

lemma day_block_passes:
  assumes day: "2 \<le> day" "day \<le> 25"
    and ws: "list_all is_space ws1" "list_all is_space ws2"
  shows "str_replace ''Day01'' new1 (fn_block day_header ws1 ''1'' ws2)
      = fn_block day_header ws1 ''1'' ws2"
    and "str_replace ''  1'' (''  '' @ str_int day) (fn_block day_header ws1 ''1'' ws2)
      = fn_block day_header ws1
          (if suffix ''  '' (day_header @ ws1) then str_int day else ''1'') ws2"
    and "re_sub_fn day_header ''1'' (str_int day)
          (fn_block day_header ws1
             (if suffix ''  '' (day_header @ ws1) then str_int day else ''1'') ws2)
      = fn_block day_header ws1 (str_int day) ws2"
    and "re_sub_fn implemented_header ''true'' repl4 (fn_block day_header ws1 (str_int day) ws2)
      = fn_block day_header ws1 (str_int day) ws2"
proof -
  note v = day_string_props [OF day]
  have "CHR ''D'' \<notin> set (fn_block day_header ws1 ''1'' ws2)"
    using ws by (rule fn_block_free) (simp_all add: space_chars header_facts)
  then show "str_replace ''Day01'' new1 (fn_block day_header ws1 ''1'' ws2)
      = fn_block day_header ws1 ''1'' ws2"
    by (intro str_replace_foreign [of "CHR ''D''"]) simp_all
next
  have a: "CHR ''1'' \<notin> set (day_header @ ws1)"
    using space_free [OF ws(1) space_chars(2)] by (simp add: header_facts)
  have r: "CHR ''1'' \<notin> set (ws2 @ ''}'')"
    using space_free [OF ws(2) space_chars(2)] by simp
  from two_spaces_one_block [OF a r, of "str_int day"]
  show "str_replace ''  1'' (''  '' @ str_int day) (fn_block day_header ws1 ''1'' ws2)
      = fn_block day_header ws1
          (if suffix ''  '' (day_header @ ws1) then str_int day else ''1'') ws2"
    by (simp add: fn_block_def)
next
  note v = day_string_props [OF day]
  have one: "re_sub_fn day_header ''1'' (str_int day) (fn_block day_header ws1 ''1'' ws2)
      = fn_block day_header ws1 (str_int day) ws2"
    using ws by (rule re_sub_fn_block) (simp_all add: space_chars header_facts)
  have brace: "CHR ''{'' \<notin> set (ws1 @ str_int day @ ws2 @ ''}'')"
    using space_free [OF ws(1) space_chars(5)] space_free [OF ws(2) space_chars(5)] v(4)
    by simp
  have other: "re_sub_fn day_header ''1'' (str_int day) (fn_block day_header ws1 (str_int day) ws2)
      = fn_block day_header ws1 (str_int day) ws2"
  proof (rule re_sub_fn_block_other)
    show "list_all is_space ws1" by (rule ws(1))
    show "day_header \<noteq> []" by (rule header_facts(1))
    show "last day_header \<notin> set (ws1 @ str_int day @ ws2 @ ''}'')"
      unfolding header_facts(5) by (rule brace)
    show "str_int day \<noteq> []" by (rule v(1))
    show "\<not> is_space (hd (str_int day))" by (rule v(2))
    show "hd (str_int day) = CHR ''1'' \<Longrightarrow>
      tl (str_int day) \<noteq> [] \<and> \<not> is_space (hd (tl (str_int day)))
      \<and> hd (tl (str_int day)) \<noteq> CHR ''}''"
      by (rule v(3))
  qed
  show "re_sub_fn day_header ''1'' (str_int day)
          (fn_block day_header ws1
             (if suffix ''  '' (day_header @ ws1) then str_int day else ''1'') ws2)
      = fn_block day_header ws1 (str_int day) ws2"
  proof (cases "suffix ''  '' (day_header @ ws1)")
    case True
    then show ?thesis by (simp only: if_True other)
  next
    case False
    then show ?thesis by (simp only: if_False one)
  qed
next
  note v = day_string_props [OF day]
  have "CHR ''m'' \<notin> set (fn_block day_header ws1 (str_int day) ws2)"
    using ws by (rule fn_block_free) (simp_all add: space_chars header_facts v(5))
  then show "re_sub_fn implemented_header ''true'' repl4 (fn_block day_header ws1 (str_int day) ws2)
      = fn_block day_header ws1 (str_int day) ws2"
    by (intro re_sub_fn_foreign [of "CHR ''m''"]) (simp_all add: header_facts)
qed

lemma implemented_block_passes:
  assumes ws: "list_all is_space ws1" "list_all is_space ws2"
  shows "str_replace ''Day01'' new1 (fn_block implemented_header ws1 ''true'' ws2)
      = fn_block implemented_header ws1 ''true'' ws2"
    and "str_replace ''  1'' new2 (fn_block implemented_header ws1 ''true'' ws2)
      = fn_block implemented_header ws1 ''true'' ws2"
    and "re_sub_fn day_header ''1'' repl3 (fn_block implemented_header ws1 ''true'' ws2)
      = fn_block implemented_header ws1 ''true'' ws2"
    and "re_sub_fn implemented_header ''true'' repl4 (fn_block implemented_header ws1 ''true'' ws2)
      = fn_block implemented_header ws1 repl4 ws2"
proof -
  have "CHR ''D'' \<notin> set (fn_block implemented_header ws1 ''true'' ws2)"
    using ws by (rule fn_block_free) (simp_all add: space_chars header_facts)
  then show "str_replace ''Day01'' new1 (fn_block implemented_header ws1 ''true'' ws2)
      = fn_block implemented_header ws1 ''true'' ws2"
    by (intro str_replace_foreign [of "CHR ''D''"]) simp_all
next
  have "CHR ''1'' \<notin> set (fn_block implemented_header ws1 ''true'' ws2)"
    using ws by (rule fn_block_free) (simp_all add: space_chars header_facts)
  then show "str_replace ''  1'' new2 (fn_block implemented_header ws1 ''true'' ws2)
      = fn_block implemented_header ws1 ''true'' ws2"
    by (intro str_replace_foreign [of "CHR ''1''"]) simp_all
next
  have "CHR ''y'' \<notin> set (fn_block implemented_header ws1 ''true'' ws2)"
    using ws by (rule fn_block_free) (simp_all add: space_chars header_facts)
  then show "re_sub_fn day_header ''1'' repl3 (fn_block implemented_header ws1 ''true'' ws2)
      = fn_block implemented_header ws1 ''true'' ws2"
    by (intro re_sub_fn_foreign [of "CHR ''y''"]) (simp_all add: header_facts)
next
  show "re_sub_fn implemented_header ''true'' repl4 (fn_block implemented_header ws1 ''true'' ws2)
      = fn_block implemented_header ws1 repl4 ws2"
    using ws by (rule re_sub_fn_block) (simp_all add: space_chars header_facts)
qed

lemma expand_day_block:
  assumes day: "2 \<le> day" "day \<le> 25"
    and ws: "list_all is_space ws1" "list_all is_space ws2"
  shows "expand_template day (pre @ fn_block day_header ws1 ''1'' ws2 @ post) =
     expand_template day pre @ fn_block day_header ws1 (str_int day) ws2 @ expand_template day post"
proof -
  note b = day_block_passes [OF day ws]
  let ?m1 = "literal_match ''Day01'' (''Day'' @ format_02d day)"
  let ?m2 = "literal_match ''  1'' (''  '' @ str_int day)"
  let ?m3 = "fn_matcher day_header ''1'' (str_int day)"
  let ?m4 = "fn_matcher implemented_header ''true'' ''false''"
  let ?x = "if suffix ''  '' (day_header @ ws1) then str_int day else ''1''"
  have s1: "sub_scan ?m1 (pre @ fn_block day_header ws1 ''1'' ws2 @ post)
      = sub_scan ?m1 pre @ fn_block day_header ws1 ''1'' ws2 @ sub_scan ?m1 post" for pre post
    using passes_safe(1) header_facts(3) b(1) [unfolded str_replace_def]
    by (rule pass_block)
  have s2: "sub_scan ?m2 (pre @ fn_block day_header ws1 ''1'' ws2 @ post)
      = sub_scan ?m2 pre @ fn_block day_header ws1 ?x ws2 @ sub_scan ?m2 post" for pre post
    using passes_safe(2) header_facts(3) b(2) [unfolded str_replace_def]
    by (rule pass_block)
  have s3: "sub_scan ?m3 (pre @ fn_block day_header ws1 ?x ws2 @ post)
      = sub_scan ?m3 pre @ fn_block day_header ws1 (str_int day) ws2 @ sub_scan ?m3 post"
    for pre post
    using passes_safe(3) header_facts(3) b(3) [unfolded re_sub_fn_def]
    by (rule pass_block)
  have s4: "sub_scan ?m4 (pre @ fn_block day_header ws1 (str_int day) ws2 @ post)
      = sub_scan ?m4 pre @ fn_block day_header ws1 (str_int day) ws2 @ sub_scan ?m4 post"
    for pre post
    using passes_safe(4) header_facts(3) b(4) [unfolded re_sub_fn_def]
    by (rule pass_block)
  show ?thesis
    unfolding expand_template_def Let_def str_replace_def re_sub_fn_def
    by (simp only: s1 s2 s3 s4)
qed

lemma expand_implemented_block:
  assumes ws: "list_all is_space ws1" "list_all is_space ws2"
  shows "expand_template day (pre @ fn_block implemented_header ws1 ''true'' ws2 @ post) =
     expand_template day pre @ fn_block implemented_header ws1 ''false'' ws2
       @ expand_template day post"
proof -
  note b = implemented_block_passes [OF ws]
  let ?m1 = "literal_match ''Day01'' (''Day'' @ format_02d day)"
  let ?m2 = "literal_match ''  1'' (''  '' @ str_int day)"
  let ?m3 = "fn_matcher day_header ''1'' (str_int day)"
  let ?m4 = "fn_matcher implemented_header ''true'' ''false''"
  have s1: "sub_scan ?m1 (pre @ fn_block implemented_header ws1 ''true'' ws2 @ post)
      = sub_scan ?m1 pre @ fn_block implemented_header ws1 ''true'' ws2 @ sub_scan ?m1 post"
    for pre post
    using passes_safe(1) header_facts(4) b(1) [unfolded str_replace_def]
    by (rule pass_block)
  have s2: "sub_scan ?m2 (pre @ fn_block implemented_header ws1 ''true'' ws2 @ post)
      = sub_scan ?m2 pre @ fn_block implemented_header ws1 ''true'' ws2 @ sub_scan ?m2 post"
    for pre post
    using passes_safe(2) header_facts(4) b(2) [unfolded str_replace_def]
    by (rule pass_block)
  have s3: "sub_scan ?m3 (pre @ fn_block implemented_header ws1 ''true'' ws2 @ post)
      = sub_scan ?m3 pre @ fn_block implemented_header ws1 ''true'' ws2 @ sub_scan ?m3 post"
    for pre post
    using passes_safe(3) header_facts(4) b(3) [unfolded re_sub_fn_def]
    by (rule pass_block)
  have s4: "sub_scan ?m4 (pre @ fn_block implemented_header ws1 ''true'' ws2 @ post)
      = sub_scan ?m4 pre @ fn_block implemented_header ws1 ''false'' ws2 @ sub_scan ?m4 post"
    for pre post
    using passes_safe(4) header_facts(4) b(4) [unfolded re_sub_fn_def]
    by (rule pass_block)
  show ?thesis
    unfolding expand_template_def Let_def str_replace_def re_sub_fn_def
    by (simp only: s1 s2 s3 s4)
qed

lemma prefix_drop_contains: "prefix old (drop i s) \<Longrightarrow> str_contains old s"
proof (induction s arbitrary: i)
  case Nil
  then show ?case by simp
next
  case (Cons c cs)
  show ?case
  proof (cases i)
    case 0
    with Cons.prems show ?thesis by simp
  next
    case (Suc j)
    with Cons.prems have "prefix old (drop j cs)"
      by simp
    then have "str_contains old cs"
      by (rule Cons.IH)
    then show ?thesis by simp
  qed
qed

lemma str_replace_absent:
  assumes "\<not> str_contains old s"
  shows "str_replace old new s = s"
  unfolding str_replace_def
proof (rule sub_scan_no_match)
  fix i
  from assms prefix_drop_contains [of old i s] have "\<not> prefix old (drop i s)"
    by blast
  then show "literal_match old new (drop i s) = None"
    by (simp add: literal_match_def)
qed

text \<open>
  Claim C5 (as amended). For every day \<open>D\<close> from 2 to 25 and every template that
  holds the function \<^verbatim>\<open>fn day(&self) -> i32 {\<close> \<open>1\<close> \<^verbatim>\<open>}\<close> and the function
  \<^verbatim>\<open>fn implemented(&self) -> bool {\<close> \<open>true\<close> \<^verbatim>\<open>}\<close> (white space around the
  value), the output holds the first with \<open>D\<close> for \<open>1\<close> and the second with \<open>false\<close>
  for \<open>true\<close>, both otherwise as they were, and between them the expansion of each
  other part of the template on its own (the same holds for each function alone, so
  in either order). On such a part the expander replaces the label \<open>Day01\<close> by
  \<open>DayDD\<close>, and besides every occurrence of two spaces and \<open>1\<close> by two spaces and
  \<open>D\<close>: a part that has no such occurrence once the label is replaced is changed by
  the three substitutions only, and a part with no label, no such occurrence and no
  function is not changed at all.
\<close>

theorem expand_template_scope:
  assumes "2 \<le> day" and "day \<le> 25"
    and "list_all is_space ws1" and "list_all is_space ws2"
    and "list_all is_space ws3" and "list_all is_space ws4"
  shows "expand_template day
           (pre @ fn_block day_header ws1 ''1'' ws2 @ mid
              @ fn_block implemented_header ws3 ''true'' ws4 @ post)
         = expand_template day pre @ fn_block day_header ws1 (str_int day) ws2
             @ expand_template day mid @ fn_block implemented_header ws3 ''false'' ws4
             @ expand_template day post
    \<and> expand_template day (pre @ fn_block day_header ws1 ''1'' ws2 @ post)
         = expand_template day pre @ fn_block day_header ws1 (str_int day) ws2
             @ expand_template day post
    \<and> expand_template day (pre @ fn_block implemented_header ws3 ''true'' ws4 @ post)
         = expand_template day pre @ fn_block implemented_header ws3 ''false'' ws4
             @ expand_template day post
    \<and> (\<not> str_contains ''  1'' (str_replace ''Day01'' (''Day'' @ format_02d day) t) \<longrightarrow>
         expand_template day t = three_substitutions day t)
    \<and> (\<not> str_contains ''Day01'' t \<and> \<not> str_contains ''  1'' t
        \<and> \<not> re_search_fn day_header ''1'' t \<and> \<not> re_search_fn implemented_header ''true'' t \<longrightarrow>
         expand_template day t = t)"
proof (intro conjI impI)
  note d = expand_day_block [OF assms(1-4)]
  note i = expand_implemented_block [OF assms(5,6)]
  show "expand_template day (pre @ fn_block day_header ws1 ''1'' ws2 @ post)
         = expand_template day pre @ fn_block day_header ws1 (str_int day) ws2
             @ expand_template day post"
    by (rule d)
  show "expand_template day (pre @ fn_block implemented_header ws3 ''true'' ws4 @ post)
         = expand_template day pre @ fn_block implemented_header ws3 ''false'' ws4
             @ expand_template day post"
    by (rule i)
  have "expand_template day
           (pre @ fn_block day_header ws1 ''1'' ws2 @ (mid
              @ fn_block implemented_header ws3 ''true'' ws4 @ post))
         = expand_template day pre @ fn_block day_header ws1 (str_int day) ws2
             @ expand_template day (mid @ fn_block implemented_header ws3 ''true'' ws4 @ post)"
    by (rule d)
  then show "expand_template day
           (pre @ fn_block day_header ws1 ''1'' ws2 @ mid
              @ fn_block implemented_header ws3 ''true'' ws4 @ post)
         = expand_template day pre @ fn_block day_header ws1 (str_int day) ws2
             @ expand_template day mid @ fn_block implemented_header ws3 ''false'' ws4
             @ expand_template day post"
    by (simp only: i)
next
  assume "\<not> str_contains ''  1'' (str_replace ''Day01'' (''Day'' @ format_02d day) t)"
  then have "str_replace ''  1'' (''  '' @ str_int day)
      (str_replace ''Day01'' (''Day'' @ format_02d day) t)
      = str_replace ''Day01'' (''Day'' @ format_02d day) t"
    by (rule str_replace_absent)
  then show "expand_template day t = three_substitutions day t"
    unfolding expand_template_def three_substitutions_def Let_def by (simp only:)
next
  assume a: "\<not> str_contains ''Day01'' t \<and> \<not> str_contains ''  1'' t
        \<and> \<not> re_search_fn day_header ''1'' t \<and> \<not> re_search_fn implemented_header ''true'' t"
  then have p1: "str_replace ''Day01'' (''Day'' @ format_02d day) t = t"
    and p2: "str_replace ''  1'' (''  '' @ str_int day) t = t"
    and p3: "re_sub_fn day_header ''1'' (str_int day) t = t"
    and p4: "re_sub_fn implemented_header ''true'' ''false'' t = t"
    by (simp_all add: str_replace_absent re_sub_fn_no_match)
  show "expand_template day t = t"
    unfolding expand_template_def Let_def by (simp only: p1 p2 p3 p4)
qed

lemma day01_template_parts:
  "day01_template =
     ''pub struct Day01;\<newline>\<newline>impl Puzzle for Day01 {\<newline>    ''
     @ fn_block day_header ''\<newline>        '' ''1'' ''\<newline>    '' @ ''\<newline>    ''
     @ fn_block implemented_header ''\<newline>        '' ''true'' ''\<newline>    '' @ ''\<newline>}\<newline>''"
  "list_all is_space ''\<newline>        ''" "list_all is_space ''\<newline>    ''"
  "expand_template 7 ''pub struct Day01;\<newline>\<newline>impl Puzzle for Day01 {\<newline>    ''
     = ''pub struct Day07;\<newline>\<newline>impl Puzzle for Day07 {\<newline>    ''"
  "expand_template 7 ''\<newline>    '' = ''\<newline>    ''"
  "expand_template 7 ''\<newline>}\<newline>'' = ''\<newline>}\<newline>''"
  "str_int 7 = ''7''"
  by code_simp+

lemma plain_text_facts:
  "\<not> str_contains ''  1'' (str_replace ''Day01'' (''Day'' @ format_02d 7) ''// Day01: 1 + 1'')"
  "three_substitutions 7 ''// Day01: 1 + 1'' = ''// Day07: 1 + 1''"
  "\<not> str_contains ''Day01'' ''fn part_1() { 1 }'' \<and> \<not> str_contains ''  1'' ''fn part_1() { 1 }''
   \<and> \<not> re_search_fn day_header ''1'' ''fn part_1() { 1 }''
   \<and> \<not> re_search_fn implemented_header ''true'' ''fn part_1() { 1 }''"
  by code_simp+

theorem expand_template_scope_witness:
  "expand_template 7 day01_template =
     ''pub struct Day07;\<newline>\<newline>impl Puzzle for Day07 {\<newline>    fn day(&self) -> i32 {\<newline>        7\<newline>    }\<newline>    fn implemented(&self) -> bool {\<newline>        false\<newline>    }\<newline>}\<newline>''
   \<and> expand_template 7 ''// Day01: 1 + 1'' = ''// Day07: 1 + 1''
   \<and> expand_template 7 ''fn part_1() { 1 }'' = ''fn part_1() { 1 }''"
proof -
  have day: "(2::int) \<le> 7" "(7::int) \<le> 25"
    by simp_all
  note scope = expand_template_scope [OF day day01_template_parts(2,3,2,3)]
  from scope [of "''pub struct Day01;\<newline>\<newline>impl Puzzle for Day01 {\<newline>    ''" "''\<newline>    ''" "''\<newline>}\<newline>''"]
  have "expand_template 7 day01_template =
      ''pub struct Day07;\<newline>\<newline>impl Puzzle for Day07 {\<newline>    ''
     @ fn_block day_header ''\<newline>        '' ''7'' ''\<newline>    '' @ ''\<newline>    ''
     @ fn_block implemented_header ''\<newline>        '' ''false'' ''\<newline>    '' @ ''\<newline>}\<newline>''"
    by (simp only: day01_template_parts(1,4,5,6,7))
  then have whole: "expand_template 7 day01_template =
     ''pub struct Day07;\<newline>\<newline>impl Puzzle for Day07 {\<newline>    fn day(&self) -> i32 {\<newline>        7\<newline>    }\<newline>    fn implemented(&self) -> bool {\<newline>        false\<newline>    }\<newline>}\<newline>''"
    by (simp add: fn_block_def day_header_def implemented_header_def)
  from scope [of _ _ _ "''// Day01: 1 + 1''"] plain_text_facts(1,2)
  have label: "expand_template 7 ''// Day01: 1 + 1'' = ''// Day07: 1 + 1''"
    by simp
  from scope [of _ _ _ "''fn part_1() { 1 }''"] plain_text_facts(3)
  have inert: "expand_template 7 ''fn part_1() { 1 }'' = ''fn part_1() { 1 }''"
    by blast
  from whole label inert show ?thesis
    by (simp only: simp_thms)
qed

text \<open>
  As stated, claim C5 has nothing changed but the label and the two functions. The
  second replacement of the expander changes every \<open>1\<close> behind two spaces: with the
  template below, the expansion for day 7 returns 700 where the template, and the
  three substitutions, have 100.
\<close>

theorem indented_one_counterexample:
  "expand_template 7 indented_template =
     ''fn day(&self) -> i32 { 7 }\<newline>fn implemented(&self) -> bool { false }\<newline>fn part_1(&self) -> i32 {\<newline>    700\<newline>}\<newline>''
   \<and> three_substitutions 7 indented_template =
     ''fn day(&self) -> i32 { 7 }\<newline>fn implemented(&self) -> bool { false }\<newline>fn part_1(&self) -> i32 {\<newline>    100\<newline>}\<newline>''
   \<and> expand_template 7 indented_template \<noteq> three_substitutions 7 indented_template"
  by code_simp


section \<open>The input sync driver\<close>

































end
